theory Spec2Isabelle
  imports Main "HOL-Library.Sublist" "HOL-Library.Char_ord" "HOL-Library.List_Lexorder"
    "HOL-Library.Product_Lexorder" "HOL-Library.AList" "HOL-Library.Multiset"
begin

section \<open>Python string primitives used by the duplicate finder\<close>

text \<open>
  A Python \<open>str\<close> is modelled as a \<open>string\<close>; one \<open>char\<close> stands for one
  code point (the code points below 256).  Comparison of strings is Python's: lexicographic
  by code point, a proper prefix being smaller.
\<close>

datatype py_error = ValueError | KeyError | IndexError | IOError | OverflowError

text \<open>\<open>str.isspace\<close> on the code points below 256.\<close>

definition isspace :: "char \<Rightarrow> bool" where
  "isspace c = (of_char c \<in> {9, 10, 11, 12, 13, 28, 29, 30, 31, 32, 133, 160 :: nat})"

text \<open>\<open>s.strip()\<close>\<close>

definition strip :: "string \<Rightarrow> string" where
  "strip s = rev (dropWhile isspace (rev (dropWhile isspace s)))"

text \<open>
  The first occurrence of \<open>sep\<close> in a string: the text before it and the text after it.
\<close>

fun find_sep :: "string \<Rightarrow> string \<Rightarrow> (string \<times> string) option" where
  "find_sep sep [] = (if sep = [] then Some ([], []) else None)"
| "find_sep sep (c # cs) =
     (if prefix sep (c # cs) then Some ([], drop (length sep) (c # cs))
      else map_option (\<lambda>(a, b). (c # a, b)) (find_sep sep cs))"

lemma find_sep_length:
  "find_sep sep s = Some (a, b) \<Longrightarrow> length a + length sep + length b = length s"
proof (induction s arbitrary: a b)
  case Nil
  then show ?case by (simp split: if_splits)
next
  case (Cons c cs)
  show ?case
  proof (cases "prefix sep (c # cs)")
    case True
    then have "length sep \<le> length (c # cs)" by (rule prefix_length_le)
    with True Cons.prems show ?thesis by auto
  next
    case False
    with Cons.prems obtain a' where "find_sep sep cs = Some (a', b)" and "a = c # a'"
      by auto
    with Cons.IH show ?thesis by fastforce
  qed
qed

text \<open>
  \<open>s.split(sep, maxsplit)\<close> for a non-empty separator: at most \<open>maxsplit\<close> splits, from
  the left; a negative \<open>maxsplit\<close> is no limit.  (The empty separator raises in Python;
  the callers check it before.)
\<close>

function split :: "string \<Rightarrow> int \<Rightarrow> string \<Rightarrow> string list" where
  "split sep maxsplit s =
     (if sep = [] \<or> maxsplit = 0 then [s]
      else case find_sep sep s of
             None \<Rightarrow> [s]
           | Some (a, b) \<Rightarrow> a # split sep (maxsplit - 1) b)"
  by pat_completeness auto
termination
proof (relation "measure (\<lambda>(sep, maxsplit, s). length s)")
  show "wf (measure (\<lambda>(sep, maxsplit, s). length s))" by simp
next
  fix sep :: string and maxsplit :: int and s x2 x y
  assume "\<not> (sep = [] \<or> maxsplit = 0)" and "find_sep sep s = Some x2" and "(x, y) = x2"
  then have "length x + length sep + length y = length s" and "sep \<noteq> []"
    using find_sep_length [of sep s x y] by auto
  then show "((sep, maxsplit - 1, y), (sep, maxsplit, s)) \<in> measure (\<lambda>(sep, maxsplit, s). length s)"
    by (cases sep) auto
qed

declare split.simps [simp del]

text \<open>\<open>sep.join(xs)\<close>\<close>

fun join :: "string \<Rightarrow> string list \<Rightarrow> string" where
  "join sep [] = []"
| "join sep [x] = x"
| "join sep (x # y # ys) = x @ sep @ join sep (y # ys)"

text \<open>\<open>xs[:n]\<close>: a negative \<open>n\<close> counts from the end.\<close>

definition slice_to :: "int \<Rightarrow> 'a list \<Rightarrow> 'a list" where
  "slice_to n xs = (if 0 \<le> n then take (nat n) xs else take (length xs - nat (- n)) xs)"

section \<open>Normalizer\<close>

text \<open>
  \<^verbatim>\<open>return delimiter.join(line.strip().split(delimiter, count)[:count])\<close>
  \<open>str.split\<close> takes its \<open>maxsplit\<close> as a \<open>Py_ssize_t\<close> (64 bits here): a count outside
  that range raises \<open>OverflowError\<close> when the arguments are converted, before the
  separator is looked at.  An empty delimiter makes \<open>split\<close> raise \<open>ValueError\<close>.  The
  slice takes any integer.
\<close>

definition PY_SSIZE_T_MAX :: int where
  "PY_SSIZE_T_MAX = 2 ^ 63 - 1"

definition normalize_line :: "string \<Rightarrow> string \<Rightarrow> int \<Rightarrow> py_error + string" where
  "normalize_line line delimiter k =
     (if k < - PY_SSIZE_T_MAX - 1 \<or> PY_SSIZE_T_MAX < k then Inl OverflowError
      else if delimiter = [] then Inl ValueError
      else Inr (join delimiter (slice_to k (split delimiter k (strip line)))))"

text \<open>
  The key as the claim words it: at most \<open>K - 1\<close> delimiters are consumed, so that the
  \<open>K\<close>-th segment keeps the rest of the line, delimiters included.
\<close>

definition residue_key :: "string \<Rightarrow> string \<Rightarrow> int \<Rightarrow> string" where
  "residue_key line delimiter k = join delimiter (split delimiter (k - 1) (strip line))"

section \<open>Input files and FileIds\<close>

text \<open>
  A directory entry as \<open>Path.glob\<close> yields it: its basename, whether it is a regular
  file, and what \<open>stat().st_size\<close> gives (\<open>None\<close> when \<open>stat\<close> raises).
\<close>

record path =
  name :: string
  is_file :: bool
  st_size :: "nat option"

text \<open>
  \<^verbatim>\<open>if not input_dir.is_dir(): return []\<close>
  \<^verbatim>\<open>files = [f for f in input_dir.glob(file_pattern) if f.is_file()]\<close>
  \<^verbatim>\<open>files.sort(key=lambda f: f.stat().st_size)\<close>
  The glob result comes in the order of the directory enumeration.  \<open>list.sort\<close> is stable
  and evaluates the key of every element first, so a failing \<open>stat\<close> raises out of the
  function.
\<close>

definition get_input_files :: "bool \<Rightarrow> path list \<Rightarrow> py_error + path list" where
  "get_input_files input_is_dir globbed =
     (if \<not> input_is_dir then Inr []
      else let files = filter is_file globbed
           in if list_ex (\<lambda>f. st_size f = None) files then Inl IOError
              else Inr (sort_key (\<lambda>f. the (st_size f)) files))"

text \<open>\<^verbatim>\<open>id_to_file_map = {i: f.name for i, f in enumerate(files)}\<close>\<close>

definition id_to_file_map :: "path list \<Rightarrow> (nat \<times> string) list" where
  "id_to_file_map files = zip [0 ..< length files] (map name files)"

text \<open>
  The order the claim words: ascending size, ties broken by basename.
\<close>

definition size_then_name_order :: "path list \<Rightarrow> path list" where
  "size_then_name_order files = sort_key (\<lambda>f. (the (st_size f), name f)) files"

section \<open>Report writer\<close>

definition nl :: char where
  "nl = CHR 0x0A"

text \<open>\<open>"    - "\<close> and \<open>"(F\'ajlon bel\"uli duplik\'atumok) "\<close>\<close>

definition bullet :: string where
  "bullet = ''    - ''"

definition intra_marker :: string where
  "intra_marker = ''(F'' @ [CHR 0xE1] @ ''jlon bel'' @ [CHR 0xFC] @ ''li duplik'' @ [CHR 0xE1] @ ''tumok) ''"

definition no_duplicates_line :: string where
  "no_duplicates_line = ''Nem tal'' @ [CHR 0xE1] @ ''lhat'' @ [CHR 0xF3] @ '' duplik'' @ [CHR 0xE1] @ ''tum.'' @ [nl]"

text \<open>
  A Python \<open>dict\<close> is an association list in insertion order; \<open>d[k] = v\<close> is
  \<open>AList.update k v d\<close>, which keeps the place of an existing key and appends a new one.
\<close>

type_synonym ('k, 'v) dict = "('k \<times> 'v) list"

definition keys :: "('k, 'v) dict \<Rightarrow> 'k list" where
  "keys d = map fst d"

definition getitem :: "('k, 'v list) dict \<Rightarrow> 'k \<Rightarrow> 'v list" where
  "getitem d k = (case map_of d k of None \<Rightarrow> [] | Some v \<Rightarrow> v)"

text \<open>
  The entries in the order the writer emits them, each with the basenames in the order it
  lists them:
  \<^verbatim>\<open>sorted_prefixes = sorted(duplicates_data.keys())\<close>
  \<^verbatim>\<open>for prefix in sorted_prefixes: ...\<close>
  \<^verbatim>\<open>    if len(duplicates_data[prefix]) == 1: ... duplicates_data[prefix][0]\<close>
  \<^verbatim>\<open>    else: for filename in sorted(duplicates_data[prefix]): ...\<close>
\<close>

definition report_entries :: "(string, string list) dict \<Rightarrow> (string \<times> string list) list" where
  "report_entries duplicates_data =
     map (\<lambda>prefix. (prefix,
            if length (getitem duplicates_data prefix) = 1 then getitem duplicates_data prefix
            else sort (getitem duplicates_data prefix)))
       (sort (keys duplicates_data))"

text \<open>The strings written for one entry.\<close>

definition entry_text :: "string \<times> string list \<Rightarrow> string list" where
  "entry_text e =
     (fst e @ [nl]) #
     (if length (snd e) = 1 then [bullet @ intra_marker @ hd (snd e) @ [nl]]
      else map (\<lambda>filename. bullet @ filename @ [nl]) (snd e))"

text \<open>
  \<open>write_duplicates\<close>: the sequence of strings written to the output file.  When the
  file cannot be opened, the empty report raises (its \<open>open\<close> is outside the
  \<^verbatim>\<open>try\<close>), the non-empty one logs the error and returns with nothing written.
\<close>

definition write_duplicates :: "(string, string list) dict \<Rightarrow> bool \<Rightarrow> py_error + string list" where
  "write_duplicates duplicates_data open_ok =
     (if duplicates_data = [] then
        (if open_ok then Inr [no_duplicates_line] else Inl IOError)
      else
        (if open_ok then Inr (concat (map entry_text (report_entries duplicates_data)))
         else Inr []))"

section \<open>The file system and the rewriting of one file\<close>

text \<open>
  The file system maps a path to the lines of the file there, as the iteration over the
  open text file yields them (each with its line end).  Input files live in one directory
  and are addressed by basename.
\<close>

type_synonym filesystem = "string \<Rightarrow> string list option"

text \<open>\<^verbatim>\<open>file_path.with_suffix(file_path.suffix + '.backup')\<close>\<close>

definition backup_path :: "string \<Rightarrow> string" where
  "backup_path file_path = file_path @ ''.backup''"

text \<open>
  The step of \<open>delete_rows_from_file\<close> at which an exception is raised, if any: creating
  the temporary file; reading the original or writing the temporary file, which then holds
  the given lines; copying the backup, which may leave a backup file behind; moving the
  temporary file over the original, which may leave the original in some state; removing
  the backup.  The clean-up in the handler is taken to succeed.
\<close>

datatype fault =
    No_fault
  | Create_temp_fails
  | Read_write_fails "string list"
  | Backup_fails "string list option"
  | Move_fails "string list option"
  | Unlink_backup_fails

text \<open>What the filtering loop writes to the temporary file.\<close>

definition filtered_content :: "string list \<Rightarrow> string list \<Rightarrow> string list" where
  "filtered_content lines_to_remove original =
     (case original of
        [] \<Rightarrow> []
      | header # rest \<Rightarrow>
          (if header \<noteq> [] then [header] else []) @
          filter (\<lambda>line. strip line \<notin> set lines_to_remove) rest)"

text \<open>
  \<open>delete_rows_from_file\<close>: the file system afterwards and the returned flag.
  \<open>temp_path\<close> is the name \<open>NamedTemporaryFile\<close> picks.
\<close>

definition delete_rows_from_file ::
  "fault \<Rightarrow> string \<Rightarrow> filesystem \<Rightarrow> string \<Rightarrow> string list \<Rightarrow> filesystem \<times> bool" where
  "delete_rows_from_file flt temp_path fs file_path lines_to_remove =
     (if flt = Create_temp_fails then (fs, False)
      else
        let fs1 = fs(temp_path \<mapsto> []) in
        case fs1 file_path of
          None \<Rightarrow> (fs1(temp_path := None), False)
        | Some original \<Rightarrow>
            (case flt of
               Read_write_fails written \<Rightarrow> ((fs1(temp_path \<mapsto> written))(temp_path := None), False)
             | _ \<Rightarrow>
               let fs2 = fs1(temp_path \<mapsto> filtered_content lines_to_remove original) in
               (case flt of
                  Backup_fails partial \<Rightarrow>
                    ((fs2(backup_path file_path := partial))(temp_path := None), False)
                | _ \<Rightarrow>
                  let fs3 = fs2(backup_path file_path := fs2 file_path) in
                  (case flt of
                     Move_fails damaged \<Rightarrow>
                       ((fs3(file_path := damaged))(temp_path := None), False)
                   | _ \<Rightarrow>
                     let fs4 = (fs3(file_path := fs3 temp_path))(temp_path := None) in
                     (case flt of
                        Unlink_backup_fails \<Rightarrow> (fs4, False)
                      | _ \<Rightarrow> (fs4(backup_path file_path := None), True))))))"

text \<open>The exceptions that occur before the move that replaces the original.\<close>

fun before_move :: "fault \<Rightarrow> bool" where
  "before_move Create_temp_fails = True"
| "before_move (Read_write_fails written) = True"
| "before_move (Backup_fails partial) = True"
| "before_move flt = False"

section \<open>Strategy selector\<close>

datatype strategy = Fast | Safe | Disk

text \<open>
  The selector computes in Python floats.  Their arithmetic is a parameter: the product
  of an \<open>int\<close> and a \<open>float\<close>, the comparison \<open>\<open><\<close>\<close>, the quotient of two \<open>int\<close>s and
  that of an \<open>int\<close> by a \<open>float\<close> (\<open>None\<close> when the operation raises: an \<open>int\<close> too
  large for a \<open>float\<close> gives \<open>OverflowError\<close>, a zero divisor \<open>ZeroDivisionError\<close>), the
  conversion \<open>int(x)\<close> of a \<open>float\<close> (\<open>None\<close> when it raises, for an infinity or a NaN),
  and the literals \<open>FAST_MODE_MEMORY_FACTOR = 0.4\<close>, \<open>SAFE_MODE_MEMORY_FACTOR = 0.1\<close>,
  \<open>RAM_USAGE_THRESHOLD = 0.70\<close> and the default line length \<open>150.0\<close>.
\<close>

record 'f float_arith =
  int_times :: "nat \<Rightarrow> 'f \<Rightarrow> 'f"
  float_less :: "'f \<Rightarrow> 'f \<Rightarrow> bool"
  int_over_int :: "nat \<Rightarrow> nat \<Rightarrow> 'f option"
  int_over_float :: "int \<Rightarrow> 'f \<Rightarrow> 'f option"
  float_to_int :: "'f \<Rightarrow> int option"
  FAST_MODE_MEMORY_FACTOR :: 'f
  SAFE_MODE_MEMORY_FACTOR :: 'f
  RAM_USAGE_THRESHOLD :: 'f
  DEFAULT_LINE_LENGTH :: 'f

text \<open>
  \<open>estimate_average_line_length\<close>: the mean length of the first 10000 non-blank
  stripped lines after the header.  Every exception is caught and gives the default: a
  file that cannot be opened, an empty file (\<open>next(f)\<close> raises \<open>StopIteration\<close>), a
  quotient that raises.  A file without a non-blank line gives the default as well.
\<close>

definition estimate_average_line_length :: "'f float_arith \<Rightarrow> filesystem \<Rightarrow> path \<Rightarrow> 'f" where
  "estimate_average_line_length fl fs file =
     (case fs (name file) of
        None \<Rightarrow> DEFAULT_LINE_LENGTH fl
      | Some [] \<Rightarrow> DEFAULT_LINE_LENGTH fl
      | Some (header # rest) \<Rightarrow>
          let sample = take 10000 (filter (\<lambda>stripped. stripped \<noteq> []) (map strip rest)) in
          if sample = [] then DEFAULT_LINE_LENGTH fl
          else (case int_over_int fl (sum_list (map length sample)) (length sample) of
                  None \<Rightarrow> DEFAULT_LINE_LENGTH fl
                | Some average \<Rightarrow> average))"

text \<open>
  \<^verbatim>\<open>max(files, key=lambda f: f.stat().st_size)\<close>: the first file of the greatest size, for
  a non-empty list of files whose sizes can be read.
\<close>

definition largest_file :: "path list \<Rightarrow> path" where
  "largest_file files =
     foldl (\<lambda>best f. if the (st_size best) < the (st_size f) then f else best) (hd files) (tl files)"

text \<open>
  \<^verbatim>\<open>disk_record_length = 16 + 2 + 3 + wlength + 1\<close>
  \<^verbatim>\<open>est_disk_space_bytes = int(total_size_bytes * (disk_record_length / avg_line_length))\<close>
  \<open>None\<close> when one of the operations raises.
\<close>

definition disk_space_estimate :: "'f float_arith \<Rightarrow> nat \<Rightarrow> int \<Rightarrow> 'f \<Rightarrow> int option" where
  "disk_space_estimate fl total_size_bytes wlength avg_line_length =
     (let disk_record_length = 16 + 2 + 3 + wlength + 1 in
      case int_over_float fl disk_record_length avg_line_length of
        None \<Rightarrow> None
      | Some ratio \<Rightarrow> float_to_int fl (int_times fl total_size_bytes ratio))"

text \<open>
  \<open>auto_select_strategy\<close>.  \<open>psutil_available\<close> is \<open>PSUTIL_AVAILABLE\<close>;
  \<open>virtual_memory_available\<close> is what \<open>psutil.virtual_memory().available\<close> gives,
  \<open>None\<close> when the probe raises.  Everything after the first \<^verbatim>\<open>if\<close> runs inside
  \<^verbatim>\<open>try: ... except Exception: return "safe"\<close>: a failing \<open>stat\<close> in the sum of the
  sizes, a failing probe, \<open>max\<close> of an empty file list, and an estimate of the disk
  space that raises all end there.  The estimated disk space is computed before the
  decision and only logged.
\<close>

definition auto_select_strategy ::
  "'f float_arith \<Rightarrow> bool \<Rightarrow> nat option \<Rightarrow> filesystem \<Rightarrow> path list \<Rightarrow> int \<Rightarrow> strategy" where
  "auto_select_strategy fl psutil_available virtual_memory_available fs files wlength =
     (if \<not> psutil_available then Safe
      else if list_ex (\<lambda>f. st_size f = None) files then Safe
      else case virtual_memory_available of
             None \<Rightarrow> Safe
           | Some available_ram_bytes \<Rightarrow>
               let total_size_bytes = sum_list (map (\<lambda>f. the (st_size f)) files);
                   ram_limit = int_times fl available_ram_bytes (RAM_USAGE_THRESHOLD fl);
                   est_fast_mode_ram = int_times fl total_size_bytes (FAST_MODE_MEMORY_FACTOR fl);
                   est_safe_mode_ram = int_times fl total_size_bytes (SAFE_MODE_MEMORY_FACTOR fl)
               in if files = [] then Safe
                  else
                    let avg_line_length = estimate_average_line_length fl fs (largest_file files) in
                    (case disk_space_estimate fl total_size_bytes wlength avg_line_length of
                       None \<Rightarrow> Safe
                     | Some est_disk_space_bytes \<Rightarrow>
                         if float_less fl est_fast_mode_ram ram_limit then Fast
                         else if float_less fl est_safe_mode_ram ram_limit then Safe
                         else Disk))"

text \<open>
  An idealised arithmetic, one instance of the parameter, for running examples: the
  values are exact, in tenths; as in Python, an \<open>int\<close> of magnitude \<open>2\<^sup>1\<^sup>0\<^sup>2\<^sup>4\<close> or more is
  too large for a \<open>float\<close>.
\<close>

definition exact_arith :: "int float_arith" where
  "exact_arith =
     \<lparr>int_times = (\<lambda>n x. int n * x), float_less = (<),
      int_over_int = (\<lambda>a b. if b = 0 then None else Some (int ((10 * a) div b))),
      int_over_float = (\<lambda>i x. if 2 ^ 1024 \<le> \<bar>i\<bar> \<or> x = 0 then None else Some ((100 * i) div x)),
      float_to_int = (\<lambda>x. Some (sgn x * (\<bar>x\<bar> div 10))),
      FAST_MODE_MEMORY_FACTOR = 4, SAFE_MODE_MEMORY_FACTOR = 1,
      RAM_USAGE_THRESHOLD = 7, DEFAULT_LINE_LENGTH = 1500\<rparr>"

section \<open>Configuration, scanning and hashing\<close>

record config =
  hash_delimiter :: string
  hash_fields :: int
  write_length :: int
  merge_batch_size :: int
  deleteduplicates :: bool

text \<open>
  The hash function (\<open>HASH_FUNCTION\<close> applied to the UTF-8 bytes of the key, rendered as
  a hexadecimal digest) is a parameter \<open>H\<close> of every function that hashes.
\<close>

type_synonym hash_function = "string \<Rightarrow> string"

text \<open>
  A \<^verbatim>\<open>for\<close> loop whose body may raise: the state is threaded through, the first
  exception ends the loop.
\<close>

fun for_loop :: "('s \<Rightarrow> 'a \<Rightarrow> py_error + 's) \<Rightarrow> 's \<Rightarrow> 'a list \<Rightarrow> py_error + 's" where
  "for_loop body s [] = Inr s"
| "for_loop body s (x # xs) =
     (case body s x of Inl e \<Rightarrow> Inl e | Inr s' \<Rightarrow> for_loop body s' xs)"

text \<open>
  \<^verbatim>\<open>with file_path.open('r', ...) as f: next(f, None); for line in f: ...\<close>
  Opening a file that does not exist raises; the first line is the header and is skipped.
\<close>

definition open_skip_header :: "filesystem \<Rightarrow> path \<Rightarrow> py_error + string list" where
  "open_skip_header fs file_path =
     (case fs (name file_path) of None \<Rightarrow> Inl IOError | Some ls \<Rightarrow> Inr (drop 1 ls))"

text \<open>\<open>d.get(k, default)\<close>\<close>

definition lookup_default :: "'v \<Rightarrow> ('k, 'v) dict \<Rightarrow> 'k \<Rightarrow> 'v" where
  "lookup_default dflt d k = (case map_of d k of None \<Rightarrow> dflt | Some v \<Rightarrow> v)"

text \<open>
  \<open>id_to_file_map[fid]\<close>.  Every FileId the engines look up comes from
  \<open>enumerate(files)\<close> and is a key of the map.
\<close>

definition file_name_of :: "(nat, string) dict \<Rightarrow> nat \<Rightarrow> string" where
  "file_name_of id_map fid = lookup_default [] id_map fid"

text \<open>
  The order in which the futures of a worker pool complete is a parameter: a function
  that rearranges the list of submitted tasks.
\<close>

type_synonym 'a completion = "'a list \<Rightarrow> 'a list"

text \<open>\<open>enumerate(files)\<close>\<close>

definition enumerate_files :: "path list \<Rightarrow> (nat \<times> path) list" where
  "enumerate_files files = zip [0 ..< length files] files"

section \<open>FAST engine\<close>

definition fast_line ::
  "hash_function \<Rightarrow> config \<Rightarrow> (string, string \<times> nat) dict \<Rightarrow> string
     \<Rightarrow> py_error + (string, string \<times> nat) dict" where
  "fast_line H cfg local_hashes line =
     (let stripped_line = strip line in
      if stripped_line = [] then Inr local_hashes
      else case normalize_line stripped_line (hash_delimiter cfg) (hash_fields cfg) of
             Inl e \<Rightarrow> Inl e
           | Inr normalized \<Rightarrow>
               let h = H normalized in
               (case map_of local_hashes h of
                  None \<Rightarrow>
                    Inr (AList.update h (slice_to (write_length cfg) stripped_line, 1) local_hashes)
                | Some (pfx, n) \<Rightarrow> Inr (AList.update h (pfx, n + 1) local_hashes)))"

definition process_file_fast ::
  "hash_function \<Rightarrow> filesystem \<Rightarrow> path \<Rightarrow> config \<Rightarrow> py_error + (string, string \<times> nat) dict" where
  "process_file_fast H fs file_path cfg =
     (case open_skip_header fs file_path of
        Inl e \<Rightarrow> Inl e
      | Inr ls \<Rightarrow> for_loop (fast_line H cfg) [] ls)"

text \<open>
  The driver's merge of one worker result.  \<open>global_hashes\<close> is a
  \<open>defaultdict(lambda: ("", Counter()))\<close>:
  \<^verbatim>\<open>if not global_hashes[h][0]: global_hashes[h] = (prefix, global_hashes[h][1])\<close>
  \<^verbatim>\<open>global_hashes[h][1][file_id] = count\<close>
\<close>

definition fast_merge_item ::
  "nat \<Rightarrow> (string, string \<times> (nat, nat) dict) dict \<Rightarrow> string \<times> string \<times> nat
     \<Rightarrow> (string, string \<times> (nat, nat) dict) dict" where
  "fast_merge_item file_id global_hashes item =
     (case item of (h, pfx, n) \<Rightarrow>
        (case lookup_default ([], []) global_hashes h of (prefix0, file_counts) \<Rightarrow>
           AList.update h
             (if prefix0 = [] then pfx else prefix0, AList.update file_id n file_counts)
             global_hashes))"

text \<open>A worker that raised is logged and contributes nothing.\<close>

definition fast_merge_result ::
  "hash_function \<Rightarrow> filesystem \<Rightarrow> config \<Rightarrow> (string, string \<times> (nat, nat) dict) dict
     \<Rightarrow> nat \<times> path \<Rightarrow> (string, string \<times> (nat, nat) dict) dict" where
  "fast_merge_result H fs cfg global_hashes task =
     (case process_file_fast H fs (snd task) cfg of
        Inl e \<Rightarrow> global_hashes
      | Inr partial_results \<Rightarrow> foldl (fast_merge_item (fst task)) global_hashes partial_results)"

definition fast_global_hashes ::
  "hash_function \<Rightarrow> (nat \<times> path) completion \<Rightarrow> filesystem \<Rightarrow> path list \<Rightarrow> config
     \<Rightarrow> (string, string \<times> (nat, nat) dict) dict" where
  "fast_global_hashes H as_completed fs files cfg =
     foldl (fast_merge_result H fs cfg) [] (as_completed (enumerate_files files))"

text \<open>
  One step of the loop that prepares the output: the state is \<open>output_data\<close> and
  \<open>intra_file_duplicates\<close>.
\<close>

definition fast_output_step ::
  "(nat, string) dict \<Rightarrow> (string, string list) dict \<times> (string, string list) dict
     \<Rightarrow> string \<times> string \<times> (nat, nat) dict
     \<Rightarrow> (string, string list) dict \<times> (string, string list) dict" where
  "fast_output_step id_map st entry =
     (case entry of (h, pfx, file_counts) \<Rightarrow>
        let total_occurrences = sum_list (map snd file_counts) in
        if length file_counts > 1 then
          (AList.update pfx (map (file_name_of id_map) (sort (keys file_counts))) (fst st), snd st)
        else if total_occurrences > 1 then
          (case keys file_counts of
             [] \<Rightarrow> st
           | file_id # _ \<Rightarrow> (fst st, AList.update pfx [file_name_of id_map file_id] (snd st)))
        else st)"

text \<open>\<open>d.update(other)\<close>\<close>

definition dict_update :: "('k, 'v) dict \<Rightarrow> ('k, 'v) dict \<Rightarrow> ('k, 'v) dict" where
  "dict_update d other = foldl (\<lambda>acc kv. AList.update (fst kv) (snd kv) acc) d other"

text \<open>
  The preparation of the output from \<open>global_hashes\<close>, ending with
  \<^verbatim>\<open>output_data.update(intra_file_duplicates)\<close>.
\<close>

definition fast_prepare_output ::
  "(nat, string) dict \<Rightarrow> (string, string \<times> (nat, nat) dict) dict \<Rightarrow> (string, string list) dict" where
  "fast_prepare_output id_map global_hashes =
     (case foldl (fast_output_step id_map) ([], []) global_hashes of
        (output_data, intra_file_duplicates) \<Rightarrow> dict_update output_data intra_file_duplicates)"

definition fast_output_data ::
  "hash_function \<Rightarrow> (nat \<times> path) completion \<Rightarrow> filesystem \<Rightarrow> path list \<Rightarrow> (nat, string) dict
     \<Rightarrow> config \<Rightarrow> (string, string list) dict" where
  "fast_output_data H as_completed fs files id_map cfg =
     fast_prepare_output id_map (fast_global_hashes H as_completed fs files cfg)"

section \<open>SAFE engine\<close>

text \<open>\<open>counter[k] += 1\<close>\<close>

definition counter_incr :: "('k, nat) dict \<Rightarrow> 'k \<Rightarrow> ('k, nat) dict" where
  "counter_incr c k = AList.update k (lookup_default 0 c k + 1) c"

definition safe_pass1_line ::
  "hash_function \<Rightarrow> config \<Rightarrow> (string, nat) dict \<Rightarrow> string \<Rightarrow> py_error + (string, nat) dict" where
  "safe_pass1_line H cfg local_hashes line =
     (let stripped_line = strip line in
      if stripped_line \<noteq> [] then
        (case normalize_line stripped_line (hash_delimiter cfg) (hash_fields cfg) of
           Inl e \<Rightarrow> Inl e
         | Inr normalized \<Rightarrow> Inr (counter_incr local_hashes (H normalized)))
      else Inr local_hashes)"

definition process_file_safe_pass1 ::
  "hash_function \<Rightarrow> filesystem \<Rightarrow> path \<Rightarrow> config \<Rightarrow> py_error + (string, nat) dict" where
  "process_file_safe_pass1 H fs file_path cfg =
     (case open_skip_header fs file_path of
        Inl e \<Rightarrow> Inl e
      | Inr ls \<Rightarrow> for_loop (safe_pass1_line H cfg) [] ls)"

definition safe_pass2_line ::
  "hash_function \<Rightarrow> config \<Rightarrow> string set \<Rightarrow> (string, string) dict \<Rightarrow> string
     \<Rightarrow> py_error + (string, string) dict" where
  "safe_pass2_line H cfg duplicate_hashes results line =
     (let stripped_line = strip line in
      if stripped_line = [] then Inr results
      else case normalize_line stripped_line (hash_delimiter cfg) (hash_fields cfg) of
             Inl e \<Rightarrow> Inl e
           | Inr normalized \<Rightarrow>
               let h = H normalized in
               if h \<in> duplicate_hashes \<and> map_of results h = None
               then Inr (AList.update h (slice_to (write_length cfg) stripped_line) results)
               else Inr results)"

definition process_file_safe_pass2 ::
  "hash_function \<Rightarrow> filesystem \<Rightarrow> path \<Rightarrow> string list \<Rightarrow> config
     \<Rightarrow> py_error + (string, string) dict" where
  "process_file_safe_pass2 H fs file_path duplicate_hashes cfg =
     (if duplicate_hashes = [] then Inr []
      else case open_skip_header fs file_path of
             Inl e \<Rightarrow> Inl e
           | Inr ls \<Rightarrow> for_loop (safe_pass2_line H cfg (set duplicate_hashes)) [] ls)"

text \<open>\<^verbatim>\<open>hash_to_file_counts[h][file_id] = count\<close> on a \<open>defaultdict(Counter)\<close>\<close>

definition safe_merge_item ::
  "nat \<Rightarrow> (string, (nat, nat) dict) dict \<Rightarrow> string \<times> nat \<Rightarrow> (string, (nat, nat) dict) dict" where
  "safe_merge_item file_id hash_to_file_counts item =
     AList.update (fst item)
       (AList.update file_id (snd item) (lookup_default [] hash_to_file_counts (fst item)))
       hash_to_file_counts"

definition safe_merge_result ::
  "hash_function \<Rightarrow> filesystem \<Rightarrow> config \<Rightarrow> (string, (nat, nat) dict) dict \<Rightarrow> nat \<times> path
     \<Rightarrow> (string, (nat, nat) dict) dict" where
  "safe_merge_result H fs cfg hash_to_file_counts task =
     (case process_file_safe_pass1 H fs (snd task) cfg of
        Inl e \<Rightarrow> hash_to_file_counts
      | Inr hashes_with_counts \<Rightarrow>
          foldl (safe_merge_item (fst task)) hash_to_file_counts hashes_with_counts)"

definition safe_hash_to_file_counts ::
  "hash_function \<Rightarrow> (nat \<times> path) completion \<Rightarrow> filesystem \<Rightarrow> path list \<Rightarrow> config
     \<Rightarrow> (string, (nat, nat) dict) dict" where
  "safe_hash_to_file_counts H as_completed fs files cfg =
     foldl (safe_merge_result H fs cfg) [] (as_completed (enumerate_files files))"

text \<open>The duplicated hashes: in more than one file, or more than once in total.\<close>

definition safe_duplicate_hashes :: "(string, (nat, nat) dict) dict \<Rightarrow> string list" where
  "safe_duplicate_hashes hash_to_file_counts =
     map fst (filter (\<lambda>(h, fc). length fc > 1 \<or> sum_list (map snd fc) > 1) hash_to_file_counts)"

text \<open>\<^verbatim>\<open>hash_to_prefix_map.update(future.result())\<close>, a failed worker being skipped\<close>

definition safe_merge_prefixes ::
  "hash_function \<Rightarrow> filesystem \<Rightarrow> config \<Rightarrow> string list \<Rightarrow> (string, string) dict \<Rightarrow> path
     \<Rightarrow> (string, string) dict" where
  "safe_merge_prefixes H fs cfg duplicate_hashes hash_to_prefix_map file_path =
     (case process_file_safe_pass2 H fs file_path duplicate_hashes cfg of
        Inl e \<Rightarrow> hash_to_prefix_map
      | Inr results \<Rightarrow> dict_update hash_to_prefix_map results)"

definition safe_output_step ::
  "(nat, string) dict \<Rightarrow> string list \<Rightarrow> (string, (nat, nat) dict) dict
     \<Rightarrow> (string, string list) dict \<Rightarrow> string \<times> string \<Rightarrow> (string, string list) dict" where
  "safe_output_step id_map duplicate_hashes hash_to_file_counts output_data entry =
     (case entry of (h, pfx) \<Rightarrow>
        if h \<in> set duplicate_hashes then
          let file_counts = lookup_default [] hash_to_file_counts h;
              total_count = sum_list (map snd file_counts);
              file_count = length file_counts
          in if file_count > 1 then
               AList.update pfx (map (file_name_of id_map) (sort (keys file_counts))) output_data
             else if total_count > 1 then
               (case keys file_counts of
                  [] \<Rightarrow> output_data
                | file_id # _ \<Rightarrow> AList.update pfx [file_name_of id_map file_id] output_data)
             else output_data
        else output_data)"

definition safe_output_data ::
  "hash_function \<Rightarrow> (nat \<times> path) completion \<Rightarrow> path completion \<Rightarrow> filesystem \<Rightarrow> path list
     \<Rightarrow> (nat, string) dict \<Rightarrow> config \<Rightarrow> (string, string list) dict" where
  "safe_output_data H as_completed1 as_completed2 fs files id_map cfg =
     (let hash_to_file_counts = safe_hash_to_file_counts H as_completed1 fs files cfg;
          duplicate_hashes = safe_duplicate_hashes hash_to_file_counts
      in if duplicate_hashes = [] then []
         else
           let hash_to_prefix_map =
                 foldl (safe_merge_prefixes H fs cfg duplicate_hashes) [] (as_completed2 files)
           in foldl (safe_output_step id_map duplicate_hashes hash_to_file_counts) []
                hash_to_prefix_map)"

section \<open>DISK engine\<close>

definition tab :: char where
  "tab = CHR 0x09"

definition DISK_MODE_DELIMITER :: string where
  "DISK_MODE_DELIMITER = [tab]"

definition DISK_CHUNK_SIZE_MB :: nat where
  "DISK_CHUNK_SIZE_MB = 128"

text \<open>\<open>str(n)\<close> of a non-negative integer\<close>

definition digit_char :: "nat \<Rightarrow> char" where
  "digit_char d = char_of (48 + d)"

function str_nat :: "nat \<Rightarrow> string" where
  "str_nat n = (if n < 10 then [digit_char n] else str_nat (n div 10) @ [digit_char (n mod 10)])"
  by pat_completeness auto
termination
  by (relation "measure id") auto

declare str_nat.simps [simp del]

text \<open>
  \<open>int(s)\<close> on the strings of decimal digits, which is what \<open>str\<close> writes; any other
  string is a \<open>ValueError\<close> here (Python also accepts a sign, underscores and blanks
  around the digits).
\<close>

definition is_digit :: "char \<Rightarrow> bool" where
  "is_digit c = (48 \<le> (of_char c :: nat) \<and> (of_char c :: nat) \<le> 57)"

definition int_of_str :: "string \<Rightarrow> nat option" where
  "int_of_str s =
     (if s \<noteq> [] \<and> list_all is_digit s
      then Some (foldl (\<lambda>acc c. 10 * acc + (of_char c - 48)) 0 s)
      else None)"

text \<open>\<open>s.replace("\t", " ")\<close>\<close>

definition replace_tab :: "string \<Rightarrow> string" where
  "replace_tab s = map (\<lambda>c. if c = tab then CHR '' '' else c) s"

text \<open>
  \<open>f.readlines(hint)\<close> of \<open>io.IOBase\<close>: lines are taken until the line just taken makes
  the total length exceed the hint; a hint of zero takes every line.  The result is the
  chunk and the lines left in the file.
\<close>

fun readlines_from :: "nat \<Rightarrow> nat \<Rightarrow> string list \<Rightarrow> string list \<times> string list" where
  "readlines_from hint len [] = ([], [])"
| "readlines_from hint len (l # ls) =
     (if length l > hint - len then ([l], ls)
      else case readlines_from hint (len + length l) ls of (c, r) \<Rightarrow> (l # c, r))"

definition readlines :: "nat \<Rightarrow> string list \<Rightarrow> string list \<times> string list" where
  "readlines hint ls = (if hint = 0 then (ls, []) else readlines_from hint 0 ls)"

lemma readlines_from_append: "readlines_from hint len ls = (c, r) \<Longrightarrow> c @ r = ls"
  by (induction ls arbitrary: len c r) (auto split: if_splits prod.splits)

lemma readlines_from_nonempty: "readlines_from hint len ls = ([], r) \<Longrightarrow> ls = []"
  by (cases ls) (auto split: if_splits prod.splits)

lemma readlines_shorter:
  assumes "readlines hint ls = (c, r)" and "c \<noteq> []"
  shows "length r < length ls"
proof -
  from assms(1) have "c @ r = ls"
    by (auto simp: readlines_def dest: readlines_from_append split: if_splits)
  with assms(2) show ?thesis by (cases c) auto
qed

text \<open>
  \<^verbatim>\<open>while True: lines = f_in.readlines(chunk_size_bytes); if not lines: break; ...\<close>
  The chunks the loop sees.
\<close>

function read_chunks :: "nat \<Rightarrow> string list \<Rightarrow> string list list" where
  "read_chunks hint ls =
     (case readlines hint ls of (c, r) \<Rightarrow> if c = [] then [] else c # read_chunks hint r)"
  by pat_completeness auto
termination
  by (relation "measure (\<lambda>(hint, ls). length ls)")
    (auto dest!: sym [of _ "readlines _ _"] dest: readlines_shorter)

declare read_chunks.simps [simp del]

text \<open>The body of the loop over the lines of one chunk.\<close>

definition disk_line ::
  "hash_function \<Rightarrow> config \<Rightarrow> nat \<Rightarrow> (string \<times> nat \<times> string) list \<Rightarrow> string
     \<Rightarrow> py_error + (string \<times> nat \<times> string) list" where
  "disk_line H cfg file_id processed_lines line =
     (let stripped_line = strip line in
      if stripped_line = [] then Inr processed_lines
      else
        let pfx = replace_tab (slice_to (write_length cfg) stripped_line) in
        case normalize_line stripped_line (hash_delimiter cfg) (hash_fields cfg) of
          Inl e \<Rightarrow> Inl e
        | Inr normalized \<Rightarrow>
            if normalized = [] then Inr processed_lines
            else Inr (processed_lines @ [(H normalized, file_id, pfx)]))"

text \<open>\<^verbatim>\<open>f"{h}{DISK_MODE_DELIMITER}{fid}{DISK_MODE_DELIMITER}{pref}\n"\<close>\<close>

definition record_line :: "string \<times> nat \<times> string \<Rightarrow> string" where
  "record_line r =
     (case r of (h, fid, pref) \<Rightarrow>
        h @ DISK_MODE_DELIMITER @ str_nat fid @ DISK_MODE_DELIMITER @ pref @ [nl])"

text \<open>
  One chunk: its records, sorted by hash (\<open>list.sort\<close> is stable), as the lines of the
  run file.
\<close>

definition disk_chunk ::
  "hash_function \<Rightarrow> config \<Rightarrow> nat \<Rightarrow> string list \<Rightarrow> py_error + string list" where
  "disk_chunk H cfg file_id chunk_lines =
     (case for_loop (disk_line H cfg file_id) [] chunk_lines of
        Inl e \<Rightarrow> Inl e
      | Inr processed_lines \<Rightarrow> Inr (map record_line (sort_key fst processed_lines)))"

text \<open>
  The run files written before the first exception; the exception is caught in the
  worker, which returns the run files it has completed.
\<close>

fun until_error :: "('a \<Rightarrow> py_error + 'b) \<Rightarrow> 'a list \<Rightarrow> 'b list" where
  "until_error f [] = []"
| "until_error f (x # xs) = (case f x of Inl e \<Rightarrow> [] | Inr y \<Rightarrow> y # until_error f xs)"

text \<open>
  \<open>process_and_sort_chunk_disk\<close>: a temporary file is modelled by the list of its
  lines; the names of the temporary files play no part in the result.
\<close>

definition process_and_sort_chunk_disk ::
  "hash_function \<Rightarrow> filesystem \<Rightarrow> nat \<times> path \<Rightarrow> config \<Rightarrow> string list list" where
  "process_and_sort_chunk_disk H fs task cfg =
     (case open_skip_header fs (snd task) of
        Inl e \<Rightarrow> []
      | Inr ls \<Rightarrow>
          until_error (disk_chunk H cfg (fst task))
            (read_chunks (DISK_CHUNK_SIZE_MB * 1024 * 1024) ls))"

text \<open>
  \<open>heapq.merge\<close> of two streams: the smaller head first, the first stream on a tie.
  \<open>heapq.merge(*streams)\<close> emits the least head at every step, the earliest stream on a
  tie, which is the right-nested merge of two streams.
\<close>

fun merge2 :: "string list \<Rightarrow> string list \<Rightarrow> string list" where
  "merge2 [] ys = ys"
| "merge2 xs [] = xs"
| "merge2 (x # xs) (y # ys) =
     (if x \<le> y then x # merge2 xs (y # ys) else y # merge2 (x # xs) ys)"

definition heapq_merge :: "string list list \<Rightarrow> string list" where
  "heapq_merge streams = foldr merge2 streams []"

text \<open>
  \<^verbatim>\<open>for i in range(0, len(temp_files_for_merge), batch_size): batch = files[i:i + batch_size]\<close>
  for a positive batch size.
\<close>

function batches :: "nat \<Rightarrow> 'a list \<Rightarrow> 'a list list" where
  "batches n xs = (if n = 0 \<or> xs = [] then [] else take n xs # batches n (drop n xs))"
  by pat_completeness auto
termination
  by (relation "measure (\<lambda>(n, xs). length xs)") auto

declare batches.simps [simp del]

text \<open>
  One level of the cascading merge.  A batch size of zero makes \<open>range\<close> raise; a
  negative one gives an empty range, so that no file is left.
\<close>

definition merge_level :: "int \<Rightarrow> string list list \<Rightarrow> py_error + string list list" where
  "merge_level batch_size temp_files =
     (if batch_size = 0 then Inl ValueError
      else if batch_size < 0 then Inr []
      else Inr (map heapq_merge (batches (nat batch_size) temp_files)))"

text \<open>
  \<^verbatim>\<open>while len(temp_files_for_merge) > 1: ...\<close>
  The loop need not end (a batch size of one merges nothing), so its result is optional.
\<close>

partial_function (option) cascade ::
  "int \<Rightarrow> string list list \<Rightarrow> (py_error + string list list) option" where
  "cascade batch_size temp_files =
     (if length temp_files > 1 then
        (case merge_level batch_size temp_files of
           Inl e \<Rightarrow> Some (Inl e)
         | Inr merged_level_files \<Rightarrow> cascade batch_size merged_level_files)
      else Some (Inr temp_files))"

declare cascade.simps [code]

text \<open>\<open>itertools.groupby\<close>: the runs of adjacent elements with equal keys.\<close>

function groupby :: "('a \<Rightarrow> 'k) \<Rightarrow> 'a list \<Rightarrow> ('k \<times> 'a list) list" where
  "groupby key [] = []"
| "groupby key (x # xs) =
     (key x, x # takeWhile (\<lambda>y. key y = key x) xs)
       # groupby key (dropWhile (\<lambda>y. key y = key x) xs)"
  by pat_completeness auto
termination
  by (relation "measure (\<lambda>(key, xs). length xs)") (auto simp: le_imp_less_Suc length_dropWhile_le)

text \<open>\<^verbatim>\<open>key=lambda line: line.split(DISK_MODE_DELIMITER, 1)[0]\<close>\<close>

definition line_key :: "string \<Rightarrow> string" where
  "line_key line = hd (split DISK_MODE_DELIMITER 1 line)"

text \<open>
  The body of the loop over the items of one group; the state is \<open>file_ids\<close> and
  \<open>prefix\<close>.  An item that does not unpack into three fields, or whose FileId does not
  parse, raises \<open>ValueError\<close> and is skipped.
\<close>

definition disk_item :: "nat list \<times> string \<Rightarrow> string \<Rightarrow> nat list \<times> string" where
  "disk_item st item =
     (case split DISK_MODE_DELIMITER 2 (strip item) of
        [_, fid_str, current_prefix] \<Rightarrow>
          (case int_of_str fid_str of
             None \<Rightarrow> st
           | Some fid \<Rightarrow> (List.insert fid (fst st), if snd st = [] then current_prefix else snd st))
      | _ \<Rightarrow> st)"

definition disk_group ::
  "(nat, string) dict \<Rightarrow> (string, string list) dict \<Rightarrow> string \<times> string list
     \<Rightarrow> (string, string list) dict" where
  "disk_group id_map output_data g =
     (let group_items = snd g in
      if length group_items > 1 then
        (case foldl disk_item ([], []) group_items of
           (file_ids, pfx) \<Rightarrow>
             if pfx \<noteq> [] then AList.update pfx (map (file_name_of id_map) (sort file_ids)) output_data
             else output_data)
      else output_data)"

text \<open>
  The three phases.  \<open>all_temp_files\<close> collects the run files of the workers in the
  order of their completion.  The result is \<open>None\<close> when the merge loop does not end, an
  exception when the merge raises (it leaves the function through \<^verbatim>\<open>finally\<close>).
\<close>

definition disk_output_data ::
  "hash_function \<Rightarrow> (nat \<times> path) completion \<Rightarrow> filesystem \<Rightarrow> path list \<Rightarrow> (nat, string) dict
     \<Rightarrow> config \<Rightarrow> (py_error + (string, string list) dict) option" where
  "disk_output_data H as_completed fs files id_map cfg =
     (let all_temp_files =
            concat (map (\<lambda>task. process_and_sort_chunk_disk H fs task cfg)
                      (as_completed (enumerate_files files)))
      in case cascade (merge_batch_size cfg) all_temp_files of
           None \<Rightarrow> None
         | Some (Inl e) \<Rightarrow> Some (Inl e)
         | Some (Inr temp_files_for_merge) \<Rightarrow>
             (case temp_files_for_merge of
                [] \<Rightarrow> Some (Inr [])
              | final_merged_file # _ \<Rightarrow>
                  Some (Inr (foldl (disk_group id_map) [] (groupby line_key final_merged_file)))))"

section \<open>Deletion pipeline\<close>

text \<open>
  \<open>collect_duplicate_lines_for_deletion\<close>.  The prefixes reported with more than one
  file:
\<close>

definition inter_file_duplicate_prefixes :: "(string, string list) dict \<Rightarrow> string set" where
  "inter_file_duplicate_prefixes duplicates_data =
     set (map fst (filter (\<lambda>(pfx, file_list). length file_list > 1) duplicates_data))"

text \<open>
  First scan: for the lines whose display prefix is such a prefix, the files in which each
  hash occurs (\<open>prefix_to_hash\<close> is filled but never read).
\<close>

definition collect_scan1_line ::
  "hash_function \<Rightarrow> config \<Rightarrow> string set \<Rightarrow> string \<Rightarrow> (string, string list) dict \<Rightarrow> string
     \<Rightarrow> py_error + (string, string list) dict" where
  "collect_scan1_line H cfg inter_prefixes file_name hash_to_files line =
     (let stripped_line = strip line in
      if stripped_line = [] then Inr hash_to_files
      else
        let pfx = slice_to (write_length cfg) stripped_line in
        if pfx \<in> inter_prefixes then
          (case normalize_line stripped_line (hash_delimiter cfg) (hash_fields cfg) of
             Inl e \<Rightarrow> Inl e
           | Inr normalized \<Rightarrow>
               let line_hash = H normalized in
               Inr (AList.update line_hash
                      (List.insert file_name (lookup_default [] hash_to_files line_hash))
                      hash_to_files))
        else Inr hash_to_files)"

text \<open>
  The loops over the files catch every exception of a file and go on with the next one.
  The exceptions of the model (a file that cannot be opened, the empty delimiter) are
  raised before the file has changed the state.
\<close>

definition scan_file ::
  "filesystem \<Rightarrow> (string \<Rightarrow> 's \<Rightarrow> string \<Rightarrow> py_error + 's) \<Rightarrow> 's \<Rightarrow> path \<Rightarrow> 's" where
  "scan_file fs body st file_path =
     (case open_skip_header fs file_path of
        Inl e \<Rightarrow> st
      | Inr ls \<Rightarrow> (case for_loop (body (name file_path)) st ls of Inl e \<Rightarrow> st | Inr st' \<Rightarrow> st'))"

text \<open>Second scan: the stripped lines of every hash found in more than one file.\<close>

definition collect_scan2_line ::
  "hash_function \<Rightarrow> config \<Rightarrow> (string, string list) dict \<Rightarrow> string
     \<Rightarrow> (string, (string, string list) dict) dict \<Rightarrow> string
     \<Rightarrow> py_error + (string, (string, string list) dict) dict" where
  "collect_scan2_line H cfg multi_file_duplicates file_name lines_to_delete line =
     (let stripped_line = strip line in
      if stripped_line = [] then Inr lines_to_delete
      else case normalize_line stripped_line (hash_delimiter cfg) (hash_fields cfg) of
             Inl e \<Rightarrow> Inl e
           | Inr normalized \<Rightarrow>
               let line_hash = H normalized in
               if map_of multi_file_duplicates line_hash \<noteq> None then
                 let file_lines_map = lookup_default [] lines_to_delete line_hash in
                 Inr (AList.update line_hash
                        (AList.update file_name
                           (lookup_default [] file_lines_map file_name @ [stripped_line])
                           file_lines_map)
                        lines_to_delete)
               else Inr lines_to_delete)"

definition collect_duplicate_lines_for_deletion ::
  "hash_function \<Rightarrow> filesystem \<Rightarrow> path list \<Rightarrow> (string, string list) dict \<Rightarrow> config
     \<Rightarrow> (string, (string, string list) dict) dict" where
  "collect_duplicate_lines_for_deletion H fs files duplicates_data cfg =
     (let inter_prefixes = inter_file_duplicate_prefixes duplicates_data in
      if inter_prefixes = {} then []
      else
        let hash_to_files = foldl (scan_file fs (collect_scan1_line H cfg inter_prefixes)) [] files;
            multi_file_duplicates = filter (\<lambda>(h, fnames). length fnames > 1) hash_to_files
        in foldl (scan_file fs (collect_scan2_line H cfg multi_file_duplicates)) [] files)"

text \<open>
  \<open>find_and_delete_intrafile_duplicates\<close>: the loop keeps the header, the blank lines
  and the first line of every hash.  Its state is \<open>seen_hashes\<close>, \<open>lines_to_keep\<close> and
  \<open>deleted_count\<close>.
\<close>

definition intra_line ::
  "hash_function \<Rightarrow> config \<Rightarrow> string set \<times> string list \<times> nat \<Rightarrow> string
     \<Rightarrow> py_error + string set \<times> string list \<times> nat" where
  "intra_line H cfg st line =
     (case st of (seen_hashes, lines_to_keep, deleted_count) \<Rightarrow>
        let stripped_line = strip line in
        if stripped_line = [] then Inr (seen_hashes, lines_to_keep @ [line], deleted_count)
        else case normalize_line stripped_line (hash_delimiter cfg) (hash_fields cfg) of
               Inl e \<Rightarrow> Inl e
             | Inr normalized \<Rightarrow>
                 let line_hash = H normalized in
                 if line_hash \<notin> seen_hashes
                 then Inr (insert line_hash seen_hashes, lines_to_keep @ [line], deleted_count)
                 else Inr (seen_hashes, lines_to_keep, deleted_count + 1))"

text \<open>
  The file is rewritten only when a line was dropped: backup copy, rewrite, removal of
  the backup.  An exception returns 0; those of the model occur before the rewriting.
\<close>

definition find_and_delete_intrafile_duplicates ::
  "hash_function \<Rightarrow> filesystem \<Rightarrow> path \<Rightarrow> config \<Rightarrow> filesystem \<times> nat" where
  "find_and_delete_intrafile_duplicates H fs file_path cfg =
     (case fs (name file_path) of
        None \<Rightarrow> (fs, 0)
      | Some [] \<Rightarrow> (fs, 0)
      | Some (header # rest) \<Rightarrow>
          (case for_loop (intra_line H cfg) ({}, if header \<noteq> [] then [header] else [], 0) rest of
             Inl e \<Rightarrow> (fs, 0)
           | Inr (seen_hashes, lines_to_keep, deleted_count) \<Rightarrow>
               if deleted_count > 0 then
                 (((fs(backup_path (name file_path) \<mapsto> header # rest))
                      (name file_path \<mapsto> lines_to_keep))
                      (backup_path (name file_path) := None),
                  deleted_count)
               else (fs, deleted_count)))"

text \<open>
  \<open>delete_duplicate_rows\<close>, stage 1.  For one hash the files are sorted by basename, the
  first one is kept, every other one is rewritten without its lines of that hash.  The
  state is the file system and \<open>inter_file_deleted_counts\<close>.  The fault of each
  rewriting is given by the hash and the file.
\<close>

definition delete_from_file ::
  "(string \<Rightarrow> string \<Rightarrow> fault) \<Rightarrow> string \<Rightarrow> path list \<Rightarrow> string \<Rightarrow> (string, string list) dict
     \<Rightarrow> filesystem \<times> (string, nat) dict \<Rightarrow> string \<Rightarrow> filesystem \<times> (string, nat) dict" where
  "delete_from_file faults temp_path files line_hash file_lines_map st delete_file =
     (case find (\<lambda>f. name f = delete_file) files of
        None \<Rightarrow> st
      | Some file_path \<Rightarrow>
          let lines_to_remove = getitem file_lines_map delete_file in
          (case delete_rows_from_file (faults line_hash delete_file) temp_path (fst st)
                  (name file_path) lines_to_remove of
             (fs', ok) \<Rightarrow>
               (fs',
                if ok then
                  AList.update delete_file
                    (lookup_default 0 (snd st) delete_file + length lines_to_remove) (snd st)
                else snd st)))"

definition delete_inter_file ::
  "(string \<Rightarrow> string \<Rightarrow> fault) \<Rightarrow> string \<Rightarrow> path list
     \<Rightarrow> filesystem \<times> (string, nat) dict \<Rightarrow> string \<times> (string, string list) dict
     \<Rightarrow> filesystem \<times> (string, nat) dict" where
  "delete_inter_file faults temp_path files st entry =
     (case entry of (line_hash, file_lines_map) \<Rightarrow>
        if file_lines_map = [] then st
        else
          let sorted_files = sort (keys file_lines_map);
              delete_files = tl sorted_files
          in foldl (delete_from_file faults temp_path files line_hash file_lines_map) st delete_files)"

text \<open>Stage 2: the duplicates within each file.\<close>

definition delete_intra_file ::
  "hash_function \<Rightarrow> config \<Rightarrow> filesystem \<times> (string, nat) dict \<Rightarrow> path
     \<Rightarrow> filesystem \<times> (string, nat) dict" where
  "delete_intra_file H cfg st file_path =
     (case find_and_delete_intrafile_duplicates H (fst st) file_path cfg of
        (fs', intra_deleted) \<Rightarrow>
          (fs', if intra_deleted > 0 then AList.update (name file_path) intra_deleted (snd st)
                else snd st))"

text \<open>\<open>f"{filename} -> T\"or\"olve {n} sor"\<close>\<close>

definition deleted_note :: "string \<Rightarrow> nat \<Rightarrow> string" where
  "deleted_note filename n =
     filename @ '' -> T'' @ [CHR 0xF6] @ ''r'' @ [CHR 0xF6] @ ''lve '' @ str_nat n @ '' sor''"

text \<open>\<open>f"(Csak f\'ajlon bel\"uli duplik\'atumok - {filename})"\<close>\<close>

definition dummy_prefix :: "string \<Rightarrow> string" where
  "dummy_prefix filename =
     ''(Csak f'' @ [CHR 0xE1] @ ''jlon bel'' @ [CHR 0xFC] @ ''li duplik'' @ [CHR 0xE1]
       @ ''tumok - '' @ filename @ '')''"

text \<open>
  Stage 3: the file lists of the report get the numbers of deleted lines.  The counters
  are \<open>defaultdict(int)\<close>; reading a missing key gives 0.  An entry with an empty file
  list raises \<open>IndexError\<close> at \<^verbatim>\<open>filename = file_list[0]\<close>.
\<close>

definition annotate_entry ::
  "(string, nat) dict \<Rightarrow> (string, nat) dict \<Rightarrow> string list \<Rightarrow> py_error + string list" where
  "annotate_entry inter_counts intra_counts file_list =
     (if length file_list > 1 then
        Inr (map (\<lambda>filename.
               if lookup_default 0 inter_counts filename > 0
               then deleted_note filename (lookup_default 0 inter_counts filename)
               else filename) file_list)
      else
        (case file_list of
           [] \<Rightarrow> Inl IndexError
         | filename # _ \<Rightarrow>
             Inr (if lookup_default 0 intra_counts filename > 0
                  then [deleted_note filename (lookup_default 0 intra_counts filename)]
                  else file_list)))"

text \<open>
  \<^verbatim>\<open>for prefix, file_list in list(modified_duplicates_data.items()): ...\<close>
  \<^verbatim>\<open>    modified_duplicates_data[prefix] = updated_file_list\<close>
  An assignment to an existing key keeps the place of the key, so the entries come out in
  the order in which they went in.
\<close>

definition annotate_entries ::
  "(string, nat) dict \<Rightarrow> (string, nat) dict \<Rightarrow> (string, string list) dict
     \<Rightarrow> py_error + (string, string list) dict" where
  "annotate_entries inter_counts intra_counts duplicates_data =
     for_loop (\<lambda>modified entry.
                 case annotate_entry inter_counts intra_counts (snd entry) of
                   Inl e \<Rightarrow> Inl e
                 | Inr updated_file_list \<Rightarrow> Inr (modified @ [(fst entry, updated_file_list)]))
       [] duplicates_data"

text \<open>
  Stage 4: a file with deletions inside it that no entry lists gets an entry of its own.
  \<^verbatim>\<open>clean_filename = listed_file.split(' ->')[0]\<close>
\<close>

definition already_listed :: "(string, string list) dict \<Rightarrow> string \<Rightarrow> bool" where
  "already_listed modified_duplicates_data filename =
     list_ex (\<lambda>file_list.
        list_ex (\<lambda>listed_file. hd (split '' ->'' (- 1) listed_file) = filename) file_list)
       (map snd modified_duplicates_data)"

definition add_intra_entry ::
  "(string, string list) dict \<Rightarrow> string \<times> nat \<Rightarrow> (string, string list) dict" where
  "add_intra_entry modified_duplicates_data entry =
     (case entry of (filename, deleted_count) \<Rightarrow>
        if deleted_count > 0 \<and> \<not> already_listed modified_duplicates_data filename
        then AList.update (dummy_prefix filename) [deleted_note filename deleted_count]
               modified_duplicates_data
        else modified_duplicates_data)"

definition delete_duplicate_rows ::
  "hash_function \<Rightarrow> (string \<Rightarrow> string \<Rightarrow> fault) \<Rightarrow> string \<Rightarrow> filesystem \<Rightarrow> path list
     \<Rightarrow> (string, (string, string list) dict) dict \<Rightarrow> (string, string list) dict \<Rightarrow> config
     \<Rightarrow> filesystem \<times> (py_error + (string, string list) dict)" where
  "delete_duplicate_rows H faults temp_path fs files lines_to_delete duplicates_data cfg =
     (case foldl (delete_inter_file faults temp_path files) (fs, []) lines_to_delete of
        (fs1, inter_file_deleted_counts) \<Rightarrow>
          (case foldl (delete_intra_file H cfg) (fs1, []) files of
             (fs2, intra_file_deleted_counts) \<Rightarrow>
               (fs2,
                case annotate_entries inter_file_deleted_counts intra_file_deleted_counts
                       duplicates_data of
                  Inl e \<Rightarrow> Inl e
                | Inr modified_duplicates_data \<Rightarrow>
                    Inr (foldl add_intra_entry modified_duplicates_data
                           intra_file_deleted_counts))))"

section \<open>The runs of the three strategies and the driver\<close>

text \<open>
  The common end of the three strategies: the deletion pipeline when it is enabled, then
  the report.  The result is the file system afterwards and what \<open>write_duplicates\<close>
  gives, or the exception that leaves \<open>delete_duplicate_rows\<close> before the report is
  written.
\<close>

definition delete_and_write ::
  "hash_function \<Rightarrow> (string \<Rightarrow> string \<Rightarrow> fault) \<Rightarrow> string \<Rightarrow> bool \<Rightarrow> filesystem \<Rightarrow> path list
     \<Rightarrow> config \<Rightarrow> (string, string list) dict \<Rightarrow> filesystem \<times> (py_error + string list)" where
  "delete_and_write H faults temp_path open_ok fs files cfg output_data =
     (if deleteduplicates cfg then
        (case delete_duplicate_rows H faults temp_path fs files
                (collect_duplicate_lines_for_deletion H fs files output_data cfg) output_data cfg of
           (fs', Inl e) \<Rightarrow> (fs', Inl e)
         | (fs', Inr output_data') \<Rightarrow> (fs', write_duplicates output_data' open_ok))
      else (fs, write_duplicates output_data open_ok))"

definition run_strategy_fast ::
  "hash_function \<Rightarrow> (nat \<times> path) completion \<Rightarrow> (string \<Rightarrow> string \<Rightarrow> fault) \<Rightarrow> string \<Rightarrow> bool
     \<Rightarrow> filesystem \<Rightarrow> path list \<Rightarrow> (nat, string) dict \<Rightarrow> config
     \<Rightarrow> filesystem \<times> (py_error + string list)" where
  "run_strategy_fast H as_completed faults temp_path open_ok fs files id_map cfg =
     delete_and_write H faults temp_path open_ok fs files cfg
       (fast_output_data H as_completed fs files id_map cfg)"

text \<open>
  The SAFE strategy writes the empty report and returns at once when the first pass finds
  no duplicated hash.
\<close>

definition run_strategy_safe ::
  "hash_function \<Rightarrow> (nat \<times> path) completion \<Rightarrow> path completion
     \<Rightarrow> (string \<Rightarrow> string \<Rightarrow> fault) \<Rightarrow> string \<Rightarrow> bool
     \<Rightarrow> filesystem \<Rightarrow> path list \<Rightarrow> (nat, string) dict \<Rightarrow> config
     \<Rightarrow> filesystem \<times> (py_error + string list)" where
  "run_strategy_safe H as_completed1 as_completed2 faults temp_path open_ok fs files id_map cfg =
     (if safe_duplicate_hashes (safe_hash_to_file_counts H as_completed1 fs files cfg) = []
      then (fs, write_duplicates [] open_ok)
      else delete_and_write H faults temp_path open_ok fs files cfg
             (safe_output_data H as_completed1 as_completed2 fs files id_map cfg))"

definition run_strategy_disk ::
  "hash_function \<Rightarrow> (nat \<times> path) completion \<Rightarrow> (string \<Rightarrow> string \<Rightarrow> fault) \<Rightarrow> string \<Rightarrow> bool
     \<Rightarrow> filesystem \<Rightarrow> path list \<Rightarrow> (nat, string) dict \<Rightarrow> config
     \<Rightarrow> (filesystem \<times> (py_error + string list)) option" where
  "run_strategy_disk H as_completed faults temp_path open_ok fs files id_map cfg =
     (case disk_output_data H as_completed fs files id_map cfg of
        None \<Rightarrow> None
      | Some (Inl e) \<Rightarrow> Some (fs, Inl e)
      | Some (Inr output_data) \<Rightarrow>
          Some (delete_and_write H faults temp_path open_ok fs files cfg output_data))"

text \<open>
  The driver.  What the process sees of its environment, beside the file system: the
  input directory, the memory probe, the order of completion of the workers, the faults
  of the rewritings, whether the report can be written.
\<close>

datatype strategy_choice = Auto | Chosen strategy

record 'f environment =
  hash_of :: hash_function
  arith :: "'f float_arith"
  input_is_dir :: bool
  glob_result :: "path list"
  psutil_available :: bool
  virtual_memory_available :: "nat option"
  completion1 :: "(nat \<times> path) completion"
  completion2 :: "path completion"
  rewrite_faults :: "string \<Rightarrow> string \<Rightarrow> fault"
  temp_name :: string
  output_writable :: bool

text \<open>
  The exit status of the interpreter: 0 when \<open>main\<close> returns, 1 when an exception
  leaves it.  The script never calls \<open>sys.exit\<close>.
\<close>

definition exit_status :: "filesystem \<times> (py_error + string list) \<Rightarrow> nat \<times> filesystem \<times> string list option" where
  "exit_status r =
     (case snd r of
        Inl e \<Rightarrow> (1, fst r, None)
      | Inr written \<Rightarrow> (0, fst r, Some written))"

text \<open>
  \<open>main\<close>: the exit status, the file system, and the report written (if any); \<open>None\<close>
  when the run does not end.
\<close>

definition main ::
  "'f environment \<Rightarrow> strategy_choice \<Rightarrow> config \<Rightarrow> filesystem
     \<Rightarrow> (nat \<times> filesystem \<times> string list option) option" where
  "main env strategy_arg cfg fs =
     (case get_input_files (input_is_dir env) (glob_result env) of
        Inl e \<Rightarrow> Some (1, fs, None)
      | Inr files \<Rightarrow>
          if files = [] then Some (0, fs, None)
          else
            let id_map = id_to_file_map files;
                strategy =
                  (case strategy_arg of
                     Auto \<Rightarrow> auto_select_strategy (arith env) (psutil_available env)
                               (virtual_memory_available env) fs files (write_length cfg)
                   | Chosen s \<Rightarrow> s)
            in case strategy of
                 Fast \<Rightarrow>
                   Some (exit_status (run_strategy_fast (hash_of env) (completion1 env)
                     (rewrite_faults env) (temp_name env) (output_writable env) fs files id_map cfg))
               | Safe \<Rightarrow>
                   Some (exit_status (run_strategy_safe (hash_of env) (completion1 env)
                     (completion2 env) (rewrite_faults env) (temp_name env) (output_writable env)
                     fs files id_map cfg))
               | Disk \<Rightarrow>
                   map_option exit_status (run_strategy_disk (hash_of env) (completion1 env)
                     (rewrite_faults env) (temp_name env) (output_writable env) fs files id_map cfg))"

section \<open>Example inputs\<close>

text \<open>
  A toy digest without collisions: a leading \<open>0\<close> and two hexadecimal digits for every
  character of the key.
\<close>

definition hex_digit :: "nat \<Rightarrow> char" where
  "hex_digit d = (''0123456789abcdef'' ! d)"

definition hex_digest :: hash_function where
  "hex_digest s =
     CHR ''0'' # concat (map (\<lambda>c. [hex_digit (of_char c div 16), hex_digit (of_char c mod 16)]) s)"

text \<open>The default configuration of the command line, with the deletion switched on or off.\<close>

definition default_config :: "bool \<Rightarrow> config" where
  "default_config dd = \<lparr>hash_delimiter = '';'', hash_fields = 6, write_length = 47,
     merge_batch_size = 256, deleteduplicates = dd\<rparr>"

definition no_faults :: "string \<Rightarrow> string \<Rightarrow> fault" where
  "no_faults line_hash delete_file = No_fault"

text \<open>
  An environment in which the workers complete in the order of submission and nothing
  fails, over a given directory listing.
\<close>

definition plain_environment :: "bool \<Rightarrow> path list \<Rightarrow> int environment" where
  "plain_environment dir_exists listing =
     \<lparr>hash_of = hex_digest, arith = exact_arith, input_is_dir = dir_exists,
      glob_result = listing, psutil_available = True, virtual_memory_available = Some 1000000,
      completion1 = (\<lambda>tasks. tasks), completion2 = (\<lambda>tasks. tasks),
      rewrite_faults = no_faults, temp_name = ''tmp0001.tmp'', output_writable = True\<rparr>"

definition csv :: "string \<Rightarrow> nat \<Rightarrow> path" where
  "csv basename bytes = \<lparr>name = basename, is_file = True, st_size = Some bytes\<rparr>"

text \<open>
  Two files with the same six key fields on a line that differs in its seventh field.
\<close>

definition corpus_same_key :: filesystem where
  "corpus_same_key =
     [''a.csv'' \<mapsto> [''h1;h2'' @ [nl], ''1;2;3;4;5;6;x'' @ [nl]],
      ''b.csv'' \<mapsto> [''h1;h2'' @ [nl], ''1;2;3;4;5;6;y'' @ [nl]]]"

text \<open>
  Two files sharing a line; \<open>b.csv\<close> is the smaller file and \<open>a.csv\<close> the larger one.
\<close>

definition corpus_shared_line :: filesystem where
  "corpus_shared_line =
     [''a.csv'' \<mapsto> [''h1;h2'' @ [nl], ''L;1'' @ [nl], ''X;1;some;more;fields'' @ [nl]],
      ''b.csv'' \<mapsto> [''h1;h2'' @ [nl], ''L;1'' @ [nl], ''Y;1'' @ [nl]]]"

text \<open>
  Two keys (\<open>ab;1\<close> and \<open>ab;2\<close>) whose lines share their first two characters; the first
  is repeated within \<open>a.csv\<close>, the second occurs in both files.
\<close>

definition corpus_shared_prefix :: filesystem where
  "corpus_shared_prefix =
     [''a.csv'' \<mapsto> [''h1;h2'' @ [nl], ''ab;1'' @ [nl], ''ab;1'' @ [nl], ''ab;2'' @ [nl]],
      ''b.csv'' \<mapsto> [''h1;h2'' @ [nl], ''ab;2'' @ [nl]]]"

section \<open>Notions used in the statements\<close>

text \<open>
  An entry of \<open>global_hashes\<close> is reported as an inter-file duplicate when its hash has
  counts for more than one file, as an intra-file duplicate when it has one file and a
  total count above one.
\<close>

definition inter_entry :: "string \<times> string \<times> (nat, nat) dict \<Rightarrow> bool" where
  "inter_entry e = (length (snd (snd e)) > 1)"

definition intra_entry :: "string \<times> string \<times> (nat, nat) dict \<Rightarrow> bool" where
  "intra_entry e = (\<not> length (snd (snd e)) > 1 \<and> sum_list (map snd (snd (snd e))) > 1)"

text \<open>The file list reported for an entry.\<close>

definition entry_names :: "(nat, string) dict \<Rightarrow> string \<times> string \<times> (nat, nat) dict \<Rightarrow> string list" where
  "entry_names id_map e =
     (if inter_entry e then map (file_name_of id_map) (sort (keys (snd (snd e))))
      else [file_name_of id_map (hd (keys (snd (snd e))))])"

section \<open>Notions for the comparison of the engines and for the deletion\<close>

text \<open>
  The configurations with which \<open>normalize_line\<close> raises nothing, the pure part of
  \<open>normalize_line\<close> (the key of a line), the hash of a line and its display prefix.
\<close>

definition keys_computable :: "config \<Rightarrow> bool" where
  "keys_computable cfg =
     (hash_delimiter cfg \<noteq> [] \<and> - PY_SSIZE_T_MAX - 1 \<le> hash_fields cfg
      \<and> hash_fields cfg \<le> PY_SSIZE_T_MAX)"

definition key_of :: "config \<Rightarrow> string \<Rightarrow> string" where
  "key_of cfg s =
     join (hash_delimiter cfg)
       (slice_to (hash_fields cfg) (split (hash_delimiter cfg) (hash_fields cfg) (strip s)))"

definition hash_line :: "hash_function \<Rightarrow> config \<Rightarrow> string \<Rightarrow> string" where
  "hash_line H cfg s = H (key_of cfg s)"

definition display_prefix :: "config \<Rightarrow> string \<Rightarrow> string" where
  "display_prefix cfg s = slice_to (write_length cfg) s"

text \<open>
  The lines a scan works on: stripped, the blank ones left out; for a file, those after
  the header.
\<close>

definition stripped_lines :: "string list \<Rightarrow> string list" where
  "stripped_lines ls = filter (\<lambda>s. s \<noteq> []) (map strip ls)"

definition data_lines :: "filesystem \<Rightarrow> path \<Rightarrow> string list" where
  "data_lines fs f = (case fs (name f) of None \<Rightarrow> [] | Some ls \<Rightarrow> stripped_lines (drop 1 ls))"

definition corpus_lines :: "filesystem \<Rightarrow> path list \<Rightarrow> string set" where
  "corpus_lines fs files = (\<Union>f \<in> set files. set (data_lines fs f))"

text \<open>
  How often a hash occurs in a file and in all files, and the FileIds of the files in
  which it occurs, ascending.
\<close>

definition occurrences :: "hash_function \<Rightarrow> config \<Rightarrow> filesystem \<Rightarrow> path \<Rightarrow> string \<Rightarrow> nat" where
  "occurrences H cfg fs f h = length (filter (\<lambda>s. hash_line H cfg s = h) (data_lines fs f))"

definition total_occurrences ::
  "hash_function \<Rightarrow> config \<Rightarrow> filesystem \<Rightarrow> path list \<Rightarrow> string \<Rightarrow> nat" where
  "total_occurrences H cfg fs files h = sum_list (map (\<lambda>f. occurrences H cfg fs f h) files)"

definition files_with ::
  "hash_function \<Rightarrow> config \<Rightarrow> filesystem \<Rightarrow> path list \<Rightarrow> string \<Rightarrow> nat list" where
  "files_with H cfg fs files h =
     filter (\<lambda>i. 0 < occurrences H cfg fs (files ! i) h) [0 ..< length files]"

text \<open>
  What a report without loss says: a prefix is reported with a file list exactly when it
  is the display prefix of a line whose hash occurs more than once in the corpus, and the
  list names the files holding that hash, in the order of their FileIds.
\<close>

definition reported ::
  "hash_function \<Rightarrow> config \<Rightarrow> filesystem \<Rightarrow> path list \<Rightarrow> string \<Rightarrow> string list \<Rightarrow> bool" where
  "reported H cfg fs files q v =
     (\<exists>s \<in> corpus_lines fs files.
        display_prefix cfg s = q
      \<and> 1 < total_occurrences H cfg fs files (hash_line H cfg s)
      \<and> v = map (\<lambda>i. name (files ! i)) (files_with H cfg fs files (hash_line H cfg s)))"

text \<open>The loop bodies of the scans on a stripped, non-blank line.\<close>

definition fast_step ::
  "hash_function \<Rightarrow> config \<Rightarrow> (string, string \<times> nat) dict \<Rightarrow> string \<Rightarrow> (string, string \<times> nat) dict" where
  "fast_step H cfg d s =
     (case map_of d (hash_line H cfg s) of
        None \<Rightarrow> AList.update (hash_line H cfg s) (display_prefix cfg s, 1) d
      | Some (p, n) \<Rightarrow> AList.update (hash_line H cfg s) (p, n + 1) d)"

text \<open>
  The counters of a hash after the workers of the tasks \<open>ts\<close> have been merged: one
  entry for every task whose file holds the hash, with the number of its occurrences
  there.
\<close>

definition counts_ok ::
  "hash_function \<Rightarrow> config \<Rightarrow> filesystem \<Rightarrow> (nat \<times> path) list \<Rightarrow> string \<Rightarrow> (nat, nat) dict \<Rightarrow> bool" where
  "counts_ok H cfg fs ts h fc =
     (distinct (map fst fc)
      \<and> (\<forall>i n. map_of fc i = Some n
            \<longleftrightarrow> 0 < n \<and> (\<exists>f. (i, f) \<in> set ts \<and> occurrences H cfg fs f h = n)))"

definition fast_table_ok ::
  "hash_function \<Rightarrow> config \<Rightarrow> filesystem \<Rightarrow> (nat \<times> path) list
     \<Rightarrow> (string, string \<times> (nat, nat) dict) dict \<Rightarrow> bool" where
  "fast_table_ok H cfg fs ts gh =
     (distinct (map fst gh)
      \<and> (\<forall>h. map_of gh h = None \<longleftrightarrow> (\<forall>t \<in> set ts. occurrences H cfg fs (snd t) h = 0))
      \<and> (\<forall>h p fc. map_of gh h = Some (p, fc) \<longrightarrow>
            counts_ok H cfg fs ts h fc
          \<and> (\<exists>t \<in> set ts. \<exists>s \<in> set (data_lines fs (snd t)).
                hash_line H cfg s = h \<and> p = display_prefix cfg s)))"

text \<open>
  On the corpus, two lines have the same hash exactly when they have the same display
  prefix.
\<close>

definition prefix_tells_hash :: "hash_function \<Rightarrow> config \<Rightarrow> filesystem \<Rightarrow> path list \<Rightarrow> bool" where
  "prefix_tells_hash H cfg fs files =
     (\<forall>s \<in> corpus_lines fs files. \<forall>t \<in> corpus_lines fs files.
        (hash_line H cfg s = hash_line H cfg t) = (display_prefix cfg s = display_prefix cfg t))"

text \<open>Every submitted task completes exactly once.\<close>

definition completes_all :: "'a completion \<Rightarrow> bool" where
  "completes_all as_completed = (\<forall>tasks. mset (as_completed tasks) = mset tasks)"

definition safe_pass1_step :: "hash_function \<Rightarrow> config \<Rightarrow> (string, nat) dict \<Rightarrow> string \<Rightarrow> (string, nat) dict" where
  "safe_pass1_step H cfg c s = counter_incr c (hash_line H cfg s)"

definition safe_pass2_step ::
  "hash_function \<Rightarrow> config \<Rightarrow> string set \<Rightarrow> (string, string) dict \<Rightarrow> string \<Rightarrow> (string, string) dict" where
  "safe_pass2_step H cfg dups r s =
     (if hash_line H cfg s \<in> dups \<and> map_of r (hash_line H cfg s) = None
      then AList.update (hash_line H cfg s) (display_prefix cfg s) r else r)"

definition safe_table_ok ::
  "hash_function \<Rightarrow> config \<Rightarrow> filesystem \<Rightarrow> (nat \<times> path) list
     \<Rightarrow> (string, (nat, nat) dict) dict \<Rightarrow> bool" where
  "safe_table_ok H cfg fs ts htfc =
     (distinct (map fst htfc)
      \<and> (\<forall>h. map_of htfc h = None \<longleftrightarrow> (\<forall>t \<in> set ts. occurrences H cfg fs (snd t) h = 0))
      \<and> (\<forall>h fc. map_of htfc h = Some fc \<longrightarrow> counts_ok H cfg fs ts h fc))"

text \<open>
  Whether the counters of a hash make it a reported duplicate, and the file list reported
  for them (the SAFE engine and, on its own table, the FAST engine).
\<close>

definition reportable :: "(nat, nat) dict \<Rightarrow> bool" where
  "reportable fc = (1 < length fc \<or> 1 < sum_list (map snd fc) \<and> fc \<noteq> [])"

definition names_for :: "(nat, string) dict \<Rightarrow> (nat, nat) dict \<Rightarrow> string list" where
  "names_for id_map fc =
     (if 1 < length fc then map (file_name_of id_map) (sort (keys fc))
      else [file_name_of id_map (hd (keys fc))])"

text \<open>A hexadecimal digest: not empty, lowercase hexadecimal digits only.\<close>

definition hex_digest_ok :: "string \<Rightarrow> bool" where
  "hex_digest_ok h = (h \<noteq> [] \<and> set h \<subseteq> set ''0123456789abcdef'')"

text \<open>The loop body of the DISK scan on a stripped, non-blank line.\<close>

definition disk_step ::
  "hash_function \<Rightarrow> config \<Rightarrow> nat \<Rightarrow> (string \<times> nat \<times> string) list \<Rightarrow> string
     \<Rightarrow> (string \<times> nat \<times> string) list" where
  "disk_step H cfg file_id acc s =
     (if key_of cfg s = [] then acc
      else acc @ [(hash_line H cfg s, file_id, replace_tab (display_prefix cfg s))])"

text \<open>
  The records the DISK scan makes of stripped, non-blank lines of the file with a given
  FileId, and the records of all files of a list of tasks.
\<close>

definition file_records ::
  "hash_function \<Rightarrow> config \<Rightarrow> nat \<Rightarrow> string list \<Rightarrow> (string \<times> nat \<times> string) list" where
  "file_records H cfg file_id ss =
     map (\<lambda>s. (hash_line H cfg s, file_id, replace_tab (display_prefix cfg s)))
       (filter (\<lambda>s. key_of cfg s \<noteq> []) ss)"

definition corpus_records ::
  "hash_function \<Rightarrow> config \<Rightarrow> filesystem \<Rightarrow> (nat \<times> path) list \<Rightarrow> (string \<times> nat \<times> string) list" where
  "corpus_records H cfg fs tasks =
     concat (map (\<lambda>t. file_records H cfg (fst t) (data_lines fs (snd t))) tasks)"

text \<open>
  The corpora on which the DISK engine loses nothing: every hash is a hexadecimal digest,
  no line has an empty key, and every display prefix is non-empty, holds no tabulator and
  does not end in white space.
\<close>

definition disk_lossless :: "hash_function \<Rightarrow> config \<Rightarrow> filesystem \<Rightarrow> path list \<Rightarrow> bool" where
  "disk_lossless H cfg fs files =
     (\<forall>s \<in> corpus_lines fs files.
        hex_digest_ok (hash_line H cfg s) \<and> key_of cfg s \<noteq> []
      \<and> display_prefix cfg s \<noteq> [] \<and> tab \<notin> set (display_prefix cfg s)
      \<and> \<not> isspace (last (display_prefix cfg s)))"




section \<open>Dictionaries\<close>

lemma map_of_rev_distinct: "distinct (map fst xs) \<Longrightarrow> map_of (rev xs) = map_of xs"
proof -
  assume d: "distinct (map fst xs)"
  then have "distinct (map fst (rev xs))"
    by (simp add: rev_map [symmetric])
  with d show ?thesis
    by (simp add: map_of_inject_set)
qed

lemma map_of_dict_update: "map_of (dict_update d other) = map_of d ++ map_of (rev other)"
proof (induction other arbitrary: d)
  case Nil
  then show ?case by (simp add: dict_update_def)
next
  case (Cons x other)
  have "dict_update d (x # other) = dict_update (AList.update (fst x) (snd x) d) other"
    by (simp add: dict_update_def)
  then have "map_of (dict_update d (x # other))
      = (map_of d)(fst x \<mapsto> snd x) ++ map_of (rev other)"
    by (simp only: Cons.IH update_conv')
  also have "\<dots> = map_of d ++ map_of (rev (x # other))"
    by (rule ext) (auto simp: map_add_def split: option.splits)
  finally show ?case .
qed

lemma distinct_dict_update:
  "distinct (map fst d) \<Longrightarrow> distinct (map fst (dict_update d other))"
proof (induction other arbitrary: d)
  case Nil
  then show ?case by (simp add: dict_update_def)
next
  case (Cons x other)
  have "dict_update d (x # other) = dict_update (AList.update (fst x) (snd x) d) other"
    by (simp add: dict_update_def)
  with Cons show ?case
    by (simp add: distinct_update)
qed

lemma distinct_keys_filter_one:
  "distinct (map fst d) \<Longrightarrow> k \<in> fst ` set d \<Longrightarrow> length (filter (\<lambda>kv. fst kv = k) d) = 1"
proof (induction d)
  case Nil
  then show ?case by simp
next
  case (Cons x d)
  show ?case
  proof (cases "fst x = k")
    case True
    from Cons.prems(1) have "fst x \<notin> fst ` set d"
      by simp
    with True have "\<forall>kv \<in> set d. fst kv \<noteq> k"
      by blast
    then have "filter (\<lambda>kv. fst kv = k) d = []"
      by (simp add: filter_empty_conv)
    with True show ?thesis by simp
  next
    case False
    with Cons show ?thesis by auto
  qed
qed


section \<open>Loops over the lines of a file\<close>

lemma normalize_line_key_of:
  "keys_computable cfg \<Longrightarrow>
     normalize_line s (hash_delimiter cfg) (hash_fields cfg) = Inr (key_of cfg s)"
  by (simp add: normalize_line_def key_of_def keys_computable_def)

lemma for_loop_stripped:
  assumes "\<And>st l. body st l = Inr (if strip l = [] then st else step st (strip l))"
  shows "for_loop body st ls = Inr (foldl step st (stripped_lines ls))"
  by (induction ls arbitrary: st) (simp_all add: assms stripped_lines_def)

lemma find_append:
  "find P (xs @ ys) = (case find P xs of None \<Rightarrow> find P ys | Some x \<Rightarrow> Some x)"
  by (induction xs) auto

lemma find_None_filter: "find P xs = None \<Longrightarrow> filter P xs = []"
  by (simp add: find_None_iff filter_empty_conv)

lemma find_Some_filter: "find P xs = Some x \<Longrightarrow> 0 < length (filter P xs) \<and> x \<in> set xs \<and> P x"
  by (induction xs) (auto split: if_splits)

lemma filter_pos_find: "0 < length (filter P xs) \<Longrightarrow> \<exists>x. find P xs = Some x"
  by (induction xs) (auto split: if_splits)

section \<open>FileIds and names\<close>

lemma map_of_id_to_file_map:
  "i < length files \<Longrightarrow> map_of (id_to_file_map files) i = Some (name (files ! i))"
proof -
  assume i: "i < length files"
  have "map_of (zip [0 ..< length files] (map name files)) ([0 ..< length files] ! i)
          = Some (map name files ! i)"
    by (rule map_of_zip_nth) (use i in simp_all)
  then show ?thesis using i by (simp add: id_to_file_map_def)
qed

lemma file_name_of_id_to_file_map:
  "i < length files \<Longrightarrow> file_name_of (id_to_file_map files) i = name (files ! i)"
  by (simp add: file_name_of_def lookup_default_def map_of_id_to_file_map)

section \<open>The preparation of the FAST output\<close>

lemma fast_output_step_maps:
  assumes "foldl (fast_output_step id_map) ([], []) gh = (out, intra)"
  shows "distinct (map fst out) \<and> distinct (map fst intra)
       \<and> map_of out p = map_option (entry_names id_map)
             (find (\<lambda>e. fst (snd e) = p \<and> inter_entry e) (rev gh))
       \<and> map_of intra p = map_option (entry_names id_map)
             (find (\<lambda>e. fst (snd e) = p \<and> intra_entry e) (rev gh))"
  using assms
proof (induction gh arbitrary: out intra rule: rev_induct)
  case Nil
  then show ?case by simp
next
  case (snoc e gh)
  obtain out0 intra0 where st: "foldl (fast_output_step id_map) ([], []) gh = (out0, intra0)"
    by (cases "foldl (fast_output_step id_map) ([], []) gh")
  note IH = snoc.IH [OF st]
  obtain h q fc where e: "e = (h, q, fc)" by (cases e)
  from snoc.prems st have step: "fast_output_step id_map (out0, intra0) e = (out, intra)"
    by simp
  show ?case
  proof (cases "length fc > 1")
    case True
    with step e have "out = AList.update q (map (file_name_of id_map) (sort (keys fc))) out0"
      and "intra = intra0"
      by (simp_all add: fast_output_step_def Let_def)
    with IH True e show ?thesis
      by (simp add: update_conv' distinct_update inter_entry_def intra_entry_def entry_names_def)
  next
    case False
    note not_inter = this
    show ?thesis
    proof (cases "sum_list (map snd fc) > 1")
      case True
      then obtain fid n fc' where fc: "fc = (fid, n) # fc'"
        by (cases fc) auto
      with step e not_inter True
      have "out = out0" and "intra = AList.update q [file_name_of id_map fid] intra0"
        by (simp_all add: fast_output_step_def Let_def keys_def)
      with IH not_inter True e fc show ?thesis
        by (simp add: update_conv' distinct_update inter_entry_def intra_entry_def
            entry_names_def keys_def)
    next
      case False
      with step e not_inter have "out = out0" and "intra = intra0"
        by (simp_all add: fast_output_step_def Let_def)
      with IH not_inter False e show ?thesis
        by (simp add: inter_entry_def intra_entry_def)
    qed
  qed
qed

lemma fast_prepare_output_map:
  "map_of (fast_prepare_output id_map gh) p =
     (case find (\<lambda>e. fst (snd e) = p \<and> intra_entry e) (rev gh) of
        Some e \<Rightarrow> Some (entry_names id_map e)
      | None \<Rightarrow> map_option (entry_names id_map)
                  (find (\<lambda>e. fst (snd e) = p \<and> inter_entry e) (rev gh)))"
proof -
  obtain out intra where st: "foldl (fast_output_step id_map) ([], []) gh = (out, intra)"
    by (cases "foldl (fast_output_step id_map) ([], []) gh")
  from fast_output_step_maps [OF st, of p] st show ?thesis
    by (simp add: fast_prepare_output_def map_of_dict_update map_of_rev_distinct map_add_def
        split: option.splits)
qed

lemma distinct_fast_prepare_output: "distinct (map fst (fast_prepare_output id_map gh))"
proof -
  obtain out intra where st: "foldl (fast_output_step id_map) ([], []) gh = (out, intra)"
    by (cases "foldl (fast_output_step id_map) ([], []) gh")
  from fast_output_step_maps [OF st] st show ?thesis
    by (simp add: fast_prepare_output_def distinct_dict_update)
qed

lemma find_skip:
  "\<forall>x \<in> set xs. \<not> P x \<Longrightarrow> find P (xs @ ys) = find P ys"
  by (induction xs) auto

section \<open>The annotation of the report\<close>

lemma annotate_entry_raises:
  "(\<exists>e. annotate_entry inter_counts intra_counts file_list = Inl e) \<longleftrightarrow> file_list = []"
  by (cases file_list) (simp_all add: annotate_entry_def)

lemma annotate_entries_loop:
  "for_loop (\<lambda>modified entry.
               case annotate_entry inter_counts intra_counts (snd entry) of
                 Inl e \<Rightarrow> Inl e
               | Inr updated_file_list \<Rightarrow> Inr (modified @ [(fst entry, updated_file_list)]))
     acc d
   = (if \<exists>entry \<in> set d. snd entry = [] then Inl IndexError
      else Inr (acc @ map (\<lambda>entry. (fst entry, projr (annotate_entry inter_counts intra_counts (snd entry)))) d))"
proof (induction d arbitrary: acc)
  case Nil
  then show ?case by simp
next
  case (Cons entry d)
  show ?case
  proof (cases "snd entry")
    case Nil
    then show ?thesis by (simp add: annotate_entry_def)
  next
    case (Cons filename rest)
    then obtain updated where "annotate_entry inter_counts intra_counts (snd entry) = Inr updated"
      by (cases "annotate_entry inter_counts intra_counts (snd entry)")
        (use annotate_entry_raises [of inter_counts intra_counts "snd entry"] in auto)
    with Cons Cons.IH show ?thesis by simp
  qed
qed

lemma annotate_entries_result:
  "annotate_entries inter_counts intra_counts d
   = (if \<exists>entry \<in> set d. snd entry = [] then Inl IndexError
      else Inr (map (\<lambda>entry. (fst entry, projr (annotate_entry inter_counts intra_counts (snd entry)))) d))"
  unfolding annotate_entries_def annotate_entries_loop by simp


section \<open>Properties of the normalizer\<close>

lemma take_split_unlimited:
  "0 \<le> k \<Longrightarrow> m < 0 \<Longrightarrow> take (nat k) (split sep k s) = take (nat k) (split sep m s)"
proof (induction sep k s arbitrary: m rule: split.induct)
  case (1 sep maxsplit s)
  show ?case
  proof (cases "sep = [] \<or> maxsplit = 0")
    case True
    then show ?thesis
      using "1.prems" by (auto simp: split.simps [of sep maxsplit s] split.simps [of "[]" m s])
  next
    case False
    show ?thesis
    proof (cases "find_sep sep s")
      case None
      then show ?thesis
        using False "1.prems" by (simp add: split.simps [of sep maxsplit s] split.simps [of sep m s])
    next
      case (Some ab)
      obtain a b where ab: "ab = (a, b)" by (cases ab)
      have pos: "0 < maxsplit" using False "1.prems" by simp
      have "take (nat (maxsplit - 1)) (split sep (maxsplit - 1) b) =
            take (nat (maxsplit - 1)) (split sep (m - 1) b)"
        using "1.IH" [OF False Some ab [symmetric], of "m - 1"] pos "1.prems" by simp
      moreover have "nat maxsplit = Suc (nat (maxsplit - 1))" using pos by simp
      ultimately show ?thesis
        using False Some ab "1.prems"
        by (simp add: split.simps [of sep maxsplit s] split.simps [of sep m s])
    qed
  qed
qed

text \<open>
  C5, as the code has it: for a non-empty delimiter and a field count \<open>K\<close> with
  \<open>0 \<le> K \<le> 2\<^sup>6\<^sup>3 - 1\<close> the normalized key is the first \<open>K\<close> fields of the trimmed line
  (the fields of the unlimited split), rejoined with the delimiter.  Whatever follows the
  \<open>K\<close>-th field is dropped: the \<open>K\<close> splits put the residue into segment \<open>K + 1\<close>, which
  the slice \<open>[:K]\<close> removes.  A field count above \<open>2\<^sup>6\<^sup>3 - 1\<close> is not taken by \<open>split\<close>:
  the call raises \<open>OverflowError\<close> and there is no key.
\<close>

theorem normalize_line_first_fields:
  "(delimiter \<noteq> [] \<and> 0 \<le> k \<and> k \<le> PY_SSIZE_T_MAX \<longrightarrow>
      normalize_line line delimiter k =
        Inr (join delimiter (take (nat k) (split delimiter (- 1) (strip line)))))
   \<and> (PY_SSIZE_T_MAX < k \<longrightarrow> normalize_line line delimiter k = Inl OverflowError)"
proof -
  have "0 < PY_SSIZE_T_MAX"
    by (simp add: PY_SSIZE_T_MAX_def)
  then show ?thesis
    by (auto simp: normalize_line_def slice_to_def take_split_unlimited [of k "- 1"])
qed

theorem normalize_line_first_fields_witness:
  "normalize_line ''  a;b;c;d  '' '';'' 2 = Inr (join '';'' (take 2 [''a'', ''b'', ''c'', ''d'']))
   \<and> normalize_line ''  a;b;c;d  '' '';'' (2 ^ 63) = Inl OverflowError"
proof -
  have "split '';'' (- 1) (strip ''  a;b;c;d  '') = [''a'', ''b'', ''c'', ''d'']"
    by code_simp
  moreover have "(2::int) \<le> PY_SSIZE_T_MAX" and "PY_SSIZE_T_MAX < (2::int) ^ 63"
    by (simp_all add: PY_SSIZE_T_MAX_def)
  ultimately show ?thesis
    using normalize_line_first_fields [of "'';''" 2 "''  a;b;c;d  ''"]
      normalize_line_first_fields [of "'';''" "2 ^ 63" "''  a;b;c;d  ''"]
    by simp
qed

text \<open>
  C5 as stated fails: with \<open>K = 2\<close> the key of \<open>a;b;c\<close> is \<open>a;b\<close>; the residue \<open>;c\<close>
  after the second field is not part of the key's last segment.
\<close>

theorem normalize_line_drops_residue:
  "normalize_line ''a;b;c'' '';'' 2 = Inr ''a;b'' \<and> residue_key ''a;b;c'' '';'' 2 = ''a;b;c''"
  by code_simp

section \<open>Properties of the FileId assignment\<close>

text \<open>
  C7, as the code has it: the input files are the regular files of the glob result in
  ascending size; files of equal size keep the order in which the directory enumeration
  produced them (the sort is stable and its key is the size alone); FileId \<open>i\<close> names the
  \<open>i\<close>-th file of that list.
\<close>

theorem get_input_files_order:
  assumes "get_input_files True globbed = Inr files"
  shows "sorted (map (\<lambda>f. the (st_size f)) files)
       \<and> (\<forall>k. filter (\<lambda>f. the (st_size f) = k) files
              = filter (\<lambda>f. the (st_size f) = k) (filter is_file globbed))
       \<and> (\<forall>i < length files. map_of (id_to_file_map files) i = Some (name (files ! i)))"
proof -
  from assms have files: "files = sort_key (\<lambda>f. the (st_size f)) (filter is_file globbed)"
    by (simp add: get_input_files_def Let_def split: if_splits)
  have "sorted (map (\<lambda>f. the (st_size f)) files)"
    unfolding files by (rule sorted_sort_key)
  moreover have "filter (\<lambda>f. the (st_size f) = k) files
              = filter (\<lambda>f. the (st_size f) = k) (filter is_file globbed)" for k
    unfolding files by (rule sort_key_stable)
  ultimately show ?thesis
    by (simp add: map_of_id_to_file_map)
qed

theorem get_input_files_order_witness:
  "get_input_files True
     [\<lparr>name = ''c.csv'', is_file = True, st_size = Some 20\<rparr>,
      \<lparr>name = ''b.csv'', is_file = True, st_size = Some 10\<rparr>,
      \<lparr>name = ''a.csv'', is_file = True, st_size = Some 10\<rparr>]
   = Inr [\<lparr>name = ''b.csv'', is_file = True, st_size = Some 10\<rparr>,
          \<lparr>name = ''a.csv'', is_file = True, st_size = Some 10\<rparr>,
          \<lparr>name = ''c.csv'', is_file = True, st_size = Some 20\<rparr>]
   \<and> map_of (id_to_file_map
        [\<lparr>name = ''b.csv'', is_file = True, st_size = Some 10\<rparr>,
         \<lparr>name = ''a.csv'', is_file = True, st_size = Some 10\<rparr>,
         \<lparr>name = ''c.csv'', is_file = True, st_size = Some 20\<rparr>]) 1 = Some ''a.csv''"
proof -
  have run: "get_input_files True
     [\<lparr>name = ''c.csv'', is_file = True, st_size = Some 20\<rparr>,
      \<lparr>name = ''b.csv'', is_file = True, st_size = Some 10\<rparr>,
      \<lparr>name = ''a.csv'', is_file = True, st_size = Some 10\<rparr>]
   = Inr [\<lparr>name = ''b.csv'', is_file = True, st_size = Some 10\<rparr>,
          \<lparr>name = ''a.csv'', is_file = True, st_size = Some 10\<rparr>,
          \<lparr>name = ''c.csv'', is_file = True, st_size = Some 20\<rparr>]"
    by (simp add: get_input_files_def)
  from get_input_files_order [OF run] show ?thesis
    using run by simp
qed

text \<open>
  C7 as stated fails: two files of equal size that the directory enumeration yields as
  \<open>b.csv\<close>, \<open>a.csv\<close> keep that order, so FileId 0 is \<open>b.csv\<close>; the order by size and
  then basename would put \<open>a.csv\<close> first.
\<close>

theorem get_input_files_ties_not_by_name:
  "map_sum id (map name) (get_input_files True
     [\<lparr>name = ''b.csv'', is_file = True, st_size = Some 10\<rparr>,
      \<lparr>name = ''a.csv'', is_file = True, st_size = Some 10\<rparr>]) = Inr [''b.csv'', ''a.csv'']
   \<and> map name (size_then_name_order
     [\<lparr>name = ''b.csv'', is_file = True, st_size = Some 10\<rparr>,
      \<lparr>name = ''a.csv'', is_file = True, st_size = Some 10\<rparr>]) = [''a.csv'', ''b.csv'']"
  by code_simp

section \<open>Properties of the report writer\<close>

text \<open>
  C8: for a non-empty set of entries the report is the text of the entries in ascending
  (for a dictionary, whose keys are distinct: strictly ascending) prefix order, every key
  once, and within an entry the basenames of that entry are listed in ascending order.
\<close>

theorem write_duplicates_sorted:
  assumes "duplicates_data \<noteq> []" and "distinct (keys duplicates_data)"
  shows "write_duplicates duplicates_data True
           = Inr (concat (map entry_text (report_entries duplicates_data)))
       \<and> sorted_wrt (<) (map fst (report_entries duplicates_data))
       \<and> set (map fst (report_entries duplicates_data)) = set (keys duplicates_data)
       \<and> (\<forall>e \<in> set (report_entries duplicates_data).
             sorted (snd e) \<and> mset (snd e) = mset (getitem duplicates_data (fst e)))"
proof -
  have fst_entries: "map fst (report_entries duplicates_data) = sort (keys duplicates_data)"
    by (simp add: report_entries_def comp_def)
  have "sorted_wrt (<) (sort (keys duplicates_data))"
    using assms(2) by (simp add: strict_sorted_iff)
  moreover have "sorted (snd e) \<and> mset (snd e) = mset (getitem duplicates_data (fst e))"
    if "e \<in> set (report_entries duplicates_data)" for e
  proof -
    from that obtain p where e: "e = (p, if length (getitem duplicates_data p) = 1
        then getitem duplicates_data p else sort (getitem duplicates_data p))"
      by (auto simp: report_entries_def)
    show ?thesis
    proof (cases "length (getitem duplicates_data p) = 1")
      case True
      then obtain x where "getitem duplicates_data p = [x]"
        by (cases "getitem duplicates_data p") auto
      with e show ?thesis by simp
    next
      case False
      with e show ?thesis by simp
    qed
  qed
  ultimately show ?thesis
    using assms(1) by (simp add: write_duplicates_def fst_entries)
qed

theorem write_duplicates_sorted_witness:
  "[(''q'', [''y.csv'', ''x.csv'']), (''p'', [''z.csv''])] \<noteq> []
   \<and> distinct (keys [(''q'', [''y.csv'', ''x.csv'']), (''p'', [''z.csv''])])
   \<and> report_entries [(''q'', [''y.csv'', ''x.csv'']), (''p'', [''z.csv''])]
       = [(''p'', [''z.csv'']), (''q'', [''x.csv'', ''y.csv''])]
   \<and> write_duplicates [(''q'', [''y.csv'', ''x.csv'']), (''p'', [''z.csv''])] True
       = Inr [''p'' @ [nl], bullet @ intra_marker @ ''z.csv'' @ [nl],
              ''q'' @ [nl], bullet @ ''x.csv'' @ [nl], bullet @ ''y.csv'' @ [nl]]"
proof -
  have d: "distinct (keys [(''q'', [''y.csv'', ''x.csv'']), (''p'', [''z.csv''])])"
    by (simp add: keys_def)
  have r: "report_entries [(''q'', [''y.csv'', ''x.csv'']), (''p'', [''z.csv''])]
       = [(''p'', [''z.csv'']), (''q'', [''x.csv'', ''y.csv''])]"
    by code_simp
  from write_duplicates_sorted [OF _ d] show ?thesis
    using d r by (simp add: entry_text_def)
qed

section \<open>Properties of the strategy selector\<close>

text \<open>
  C4, as the code has it: for a non-empty file list whose sizes can be read, with
  \<open>psutil\<close> present and a successful memory probe, the selector returns SAFE when the
  estimate of the disk space raises (it is computed inside the same \<^verbatim>\<open>try\<close>, before the
  decision, from the write length and the average line length of the largest file);
  when the estimate raises nothing it returns FAST iff total size \<open>\<times>\<close> 0.4 \<open><\<close> 0.70
  \<open>\<times>\<close> available RAM, otherwise SAFE iff total size \<open>\<times>\<close> 0.1 \<open><\<close> 0.70 \<open>\<times>\<close> available
  RAM, otherwise DISK.  Without \<open>psutil\<close> or with a failing probe it returns SAFE.
\<close>

theorem auto_select_strategy_decision:
  assumes "files \<noteq> []" and "\<forall>f \<in> set files. st_size f \<noteq> None"
  shows "auto_select_strategy fl True (Some available) fs files wlength =
           (if disk_space_estimate fl (sum_list (map (\<lambda>f. the (st_size f)) files)) wlength
                 (estimate_average_line_length fl fs (largest_file files)) = None then Safe
            else if float_less fl
                 (int_times fl (sum_list (map (\<lambda>f. the (st_size f)) files))
                    (FAST_MODE_MEMORY_FACTOR fl))
                 (int_times fl available (RAM_USAGE_THRESHOLD fl)) then Fast
            else if float_less fl
                 (int_times fl (sum_list (map (\<lambda>f. the (st_size f)) files))
                    (SAFE_MODE_MEMORY_FACTOR fl))
                 (int_times fl available (RAM_USAGE_THRESHOLD fl)) then Safe
            else Disk)
       \<and> auto_select_strategy fl True None fs files wlength = Safe
       \<and> auto_select_strategy fl False probe fs files wlength = Safe"
proof -
  have "\<not> list_ex (\<lambda>f. st_size f = None) files"
    using assms(2) by (simp add: list_ex_iff)
  then show ?thesis
    using assms(1) by (auto simp: auto_select_strategy_def Let_def split: option.splits)
qed

theorem auto_select_strategy_decision_witness:
  "auto_select_strategy exact_arith True (Some 1000) corpus_shared_line
       [csv ''b.csv'' 300, csv ''a.csv'' 700] 47 = Fast
   \<and> auto_select_strategy exact_arith True (Some 500) corpus_shared_line
       [csv ''b.csv'' 300, csv ''a.csv'' 700] 47 = Safe
   \<and> auto_select_strategy exact_arith True (Some 100) corpus_shared_line
       [csv ''b.csv'' 300, csv ''a.csv'' 700] 47 = Disk
   \<and> auto_select_strategy exact_arith True (Some 1000) corpus_shared_line
       [csv ''b.csv'' 300, csv ''a.csv'' 700] (2 ^ 1024) = Safe
   \<and> auto_select_strategy exact_arith True None corpus_shared_line
       [csv ''b.csv'' 300, csv ''a.csv'' 700] 47 = Safe
   \<and> auto_select_strategy exact_arith False (Some 1000) corpus_shared_line
       [csv ''b.csv'' 300, csv ''a.csv'' 700] 47 = Safe"
proof -
  let ?files = "[csv ''b.csv'' 300, csv ''a.csv'' 700]"
  have ne: "?files \<noteq> []" and ok: "\<forall>f \<in> set ?files. st_size f \<noteq> None"
    by (simp_all add: csv_def)
  have total: "sum_list (map (\<lambda>f. the (st_size f)) ?files) = 1000"
    by (simp add: csv_def)
  have average: "estimate_average_line_length exact_arith corpus_shared_line (largest_file ?files) = 115"
    by code_simp
  have estimate: "disk_space_estimate exact_arith 1000 47 115 \<noteq> None"
    "disk_space_estimate exact_arith 1000 (2 ^ 1024) 115 = None"
    by (simp_all add: disk_space_estimate_def exact_arith_def)
  have cmp:
    "float_less exact_arith (int_times exact_arith 1000 (FAST_MODE_MEMORY_FACTOR exact_arith))
       (int_times exact_arith 1000 (RAM_USAGE_THRESHOLD exact_arith))"
    "\<not> float_less exact_arith (int_times exact_arith 1000 (FAST_MODE_MEMORY_FACTOR exact_arith))
       (int_times exact_arith 500 (RAM_USAGE_THRESHOLD exact_arith))"
    "float_less exact_arith (int_times exact_arith 1000 (SAFE_MODE_MEMORY_FACTOR exact_arith))
       (int_times exact_arith 500 (RAM_USAGE_THRESHOLD exact_arith))"
    "\<not> float_less exact_arith (int_times exact_arith 1000 (FAST_MODE_MEMORY_FACTOR exact_arith))
       (int_times exact_arith 100 (RAM_USAGE_THRESHOLD exact_arith))"
    "\<not> float_less exact_arith (int_times exact_arith 1000 (SAFE_MODE_MEMORY_FACTOR exact_arith))
       (int_times exact_arith 100 (RAM_USAGE_THRESHOLD exact_arith))"
    by (simp_all add: exact_arith_def)
  note d = auto_select_strategy_decision [OF ne ok, of exact_arith _ corpus_shared_line,
      unfolded total average]
  from d [of 1000 47 "Some 1000"]
  have a: "auto_select_strategy exact_arith True (Some 1000) corpus_shared_line ?files 47 = Fast"
    and e: "auto_select_strategy exact_arith True None corpus_shared_line ?files 47 = Safe"
    and f: "auto_select_strategy exact_arith False (Some 1000) corpus_shared_line ?files 47 = Safe"
    by (simp_all only: estimate cmp if_True if_False)
  from d [of 500 47 None]
  have b: "auto_select_strategy exact_arith True (Some 500) corpus_shared_line ?files 47 = Safe"
    by (simp only: estimate cmp if_True if_False)
  from d [of 100 47 None]
  have c: "auto_select_strategy exact_arith True (Some 100) corpus_shared_line ?files 47 = Disk"
    by (simp only: estimate cmp if_True if_False)
  from d [of 1000 "2 ^ 1024" None]
  have r: "auto_select_strategy exact_arith True (Some 1000) corpus_shared_line ?files (2 ^ 1024) = Safe"
    by (simp only: estimate cmp if_True if_False simp_thms)
  from a b c r e f show ?thesis
    by (simp only: simp_thms)
qed

text \<open>
  C4 as stated fails: the memory probe succeeds and total size \<open>\<times>\<close> 0.4 \<open><\<close> 0.70 \<open>\<times>\<close>
  available RAM, but the write length (\<open>10\<^sup>4\<^sup>0\<^sup>0\<close>, which \<^verbatim>\<open>--write-length\<close> accepts) is too
  large for a \<open>float\<close>: the estimate of the disk space raises \<open>OverflowError\<close> inside the
  \<^verbatim>\<open>try\<close> and the selector returns SAFE, not FAST.
\<close>

theorem auto_select_strategy_estimate_raises:
  "auto_select_strategy exact_arith True (Some 1000) corpus_shared_line
       [csv ''b.csv'' 300, csv ''a.csv'' 700] (10 ^ 400) = Safe
   \<and> float_less exact_arith
         (int_times exact_arith (300 + 700) (FAST_MODE_MEMORY_FACTOR exact_arith))
         (int_times exact_arith 1000 (RAM_USAGE_THRESHOLD exact_arith))"
  by (simp add: auto_select_strategy_def disk_space_estimate_def exact_arith_def csv_def)

section \<open>Properties of the rewriting of one file\<close>

text \<open>
  C10: \<open>delete_rows_from_file\<close> builds the filtered content in a temporary file and
  moves it over the target only when it is complete: a run without exception leaves the
  target with exactly the filtered content and returns \<open>True\<close>; when an exception occurs
  before the move (the temporary file cannot be created, the original cannot be opened,
  reading or writing fails, the backup copy fails), the original file is unchanged, the
  temporary file does not exist afterwards, and the function returns \<open>False\<close>.  The
  temporary name is fresh and differs from the target and from its backup.
\<close>

theorem delete_rows_from_file_atomic:
  assumes "fs temp_path = None" and "temp_path \<noteq> file_path"
    and "temp_path \<noteq> backup_path file_path"
  shows "(before_move flt \<or> fs file_path = None \<longrightarrow>
            (case delete_rows_from_file flt temp_path fs file_path lines_to_remove of
               (fs', ok) \<Rightarrow> fs' file_path = fs file_path \<and> fs' temp_path = None \<and> \<not> ok))
       \<and> (fs file_path = Some original \<longrightarrow>
            (case delete_rows_from_file No_fault temp_path fs file_path lines_to_remove of
               (fs', ok) \<Rightarrow> fs' file_path = Some (filtered_content lines_to_remove original)
                  \<and> fs' temp_path = None \<and> ok))"
proof -
  have neq: "backup_path file_path \<noteq> file_path"
    by (simp add: backup_path_def)
  show ?thesis
    using assms neq
    by (cases flt) (auto simp: delete_rows_from_file_def Let_def split: option.splits)
qed

theorem delete_rows_from_file_atomic_witness:
  "(case delete_rows_from_file (Read_write_fails [''h'' @ [nl]]) ''tmp1''
          [''a.csv'' \<mapsto> [''h'' @ [nl], ''x;1'' @ [nl], ''y;2'' @ [nl]]] ''a.csv'' [''x;1''] of
      (fs', ok) \<Rightarrow> fs' ''a.csv'' = Some [''h'' @ [nl], ''x;1'' @ [nl], ''y;2'' @ [nl]]
         \<and> fs' ''tmp1'' = None \<and> \<not> ok)
   \<and> (case delete_rows_from_file No_fault ''tmp1''
          [''a.csv'' \<mapsto> [''h'' @ [nl], ''x;1'' @ [nl], ''y;2'' @ [nl]]] ''a.csv'' [''x;1''] of
      (fs', ok) \<Rightarrow> fs' ''a.csv'' = Some [''h'' @ [nl], ''y;2'' @ [nl]]
         \<and> fs' ''tmp1'' = None \<and> ok)"
proof -
  let ?fs = "[''a.csv'' \<mapsto> [''h'' @ [nl], ''x;1'' @ [nl], ''y;2'' @ [nl]]]"
  have a: "?fs ''tmp1'' = None" and b: "''tmp1'' \<noteq> ''a.csv''"
    and c: "''tmp1'' \<noteq> backup_path ''a.csv''"
    by (simp_all add: backup_path_def)
  have f: "filtered_content [''x;1''] [''h'' @ [nl], ''x;1'' @ [nl], ''y;2'' @ [nl]]
             = [''h'' @ [nl], ''y;2'' @ [nl]]"
    by (simp add: filtered_content_def strip_def isspace_def nl_def)
  have s: "?fs ''a.csv'' = Some [''h'' @ [nl], ''x;1'' @ [nl], ''y;2'' @ [nl]]"
    by simp
  from delete_rows_from_file_atomic [where fs = "?fs" and temp_path = "''tmp1''"
      and file_path = "''a.csv''" and flt = "Read_write_fails [''h'' @ [nl]]"
      and lines_to_remove = "[''x;1'']"
      and original = "[''h'' @ [nl], ''x;1'' @ [nl], ''y;2'' @ [nl]]", OF a b c]
  show ?thesis
    using s f by simp
qed

section \<open>Colliding display prefixes in the FAST output\<close>

text \<open>
  C9, as the code has it: when two duplicated hashes of \<open>global_hashes\<close> carry the same
  display prefix (and no other entry does), the report has a single entry for that
  prefix, so one of the two groups is lost.  Its file list is that of the later-merged
  hash, unless the earlier hash is a duplicate within one file and the later one a
  duplicate between files: the intra-file entries are written over the inter-file
  entries at the end, whatever the order of merging.
\<close>

theorem fast_prefix_collapse:
  assumes "global_hashes = xs @ e1 # ys @ e2 # zs"
    and "fst (snd e1) = p" and "fst (snd e2) = p"
    and "\<forall>e \<in> set (xs @ ys @ zs). fst (snd e) \<noteq> p"
    and "inter_entry e1 \<or> intra_entry e1" and "inter_entry e2 \<or> intra_entry e2"
  shows "map_of (fast_prepare_output id_map global_hashes) p =
           Some (if intra_entry e1 \<and> inter_entry e2 then entry_names id_map e1
                 else entry_names id_map e2)
       \<and> length (filter (\<lambda>kv. fst kv = p) (fast_prepare_output id_map global_hashes)) = 1"
proof -
  have rev_gh: "rev global_hashes = rev zs @ e2 # (rev ys @ e1 # rev xs)"
    using assms(1) by simp
  have skip_zs: "find (\<lambda>e. fst (snd e) = p \<and> Q e) (rev global_hashes)
      = find (\<lambda>e. fst (snd e) = p \<and> Q e) (e2 # (rev ys @ e1 # rev xs))" for Q
    unfolding rev_gh using assms(4) by (intro find_skip) auto
  have skip_ys: "find (\<lambda>e. fst (snd e) = p \<and> Q e) (rev ys @ e1 # rev xs)
      = find (\<lambda>e. fst (snd e) = p \<and> Q e) (e1 # rev xs)" for Q
    using assms(4) by (intro find_skip) auto
  have skip_xs: "find (\<lambda>e. fst (snd e) = p \<and> Q e) (rev xs) = None" for Q
    using assms(4) by (force simp: find_None_iff)
  have excl: "\<not> (inter_entry e \<and> intra_entry e)" for e
    by (simp add: inter_entry_def intra_entry_def)
  have reported: "map_of (fast_prepare_output id_map global_hashes) p =
           Some (if intra_entry e1 \<and> inter_entry e2 then entry_names id_map e1
                 else entry_names id_map e2)"
    using assms(2,3,5,6) excl [of e1] excl [of e2]
    by (cases "intra_entry e2"; cases "intra_entry e1")
      (simp_all add: fast_prepare_output_map skip_zs skip_ys skip_xs)
  have "distinct (map fst (fast_prepare_output id_map global_hashes))"
    by (rule distinct_fast_prepare_output)
  moreover from reported
  have "p \<in> set (map fst (fast_prepare_output id_map global_hashes))"
    by (metis map_of_eq_None_iff option.distinct(1) set_map)
  ultimately have "length (filter (\<lambda>kv. fst kv = p) (fast_prepare_output id_map global_hashes)) = 1"
    by (simp add: distinct_keys_filter_one)
  with reported show ?thesis by simp
qed

theorem fast_prefix_collapse_witness:
  "map_of (fast_prepare_output [(0, ''a.csv''), (1, ''b.csv'')]
      [(''061623b31'', ''ab'', [(0, 2)]), (''061623b32'', ''ab'', [(0, 1), (1, 1)])]) ''ab''
     = Some [''a.csv'']
   \<and> map_of (fast_prepare_output [(0, ''a.csv''), (1, ''b.csv'')]
      [(''061623b32'', ''ab'', [(0, 1), (1, 1)]), (''061623b31'', ''ab'', [(0, 2)])]) ''ab''
     = Some [''a.csv'']
   \<and> map_of (fast_prepare_output [(0, ''a.csv''), (1, ''b.csv''), (2, ''c.csv'')]
      [(''061623b32'', ''ab'', [(0, 1), (1, 1)]), (''061623b33'', ''ab'', [(1, 1), (2, 3)])]) ''ab''
     = Some [''b.csv'', ''c.csv'']"
proof -
  let ?intra = "(''061623b31'', ''ab'', [(0::nat, 2::nat)])"
  let ?inter = "(''061623b32'', ''ab'', [(0::nat, 1::nat), (1, 1)])"
  let ?inter' = "(''061623b33'', ''ab'', [(1::nat, 1::nat), (2, 3)])"
  have kinds: "intra_entry ?intra" "inter_entry ?inter" "inter_entry ?inter'"
    "\<not> intra_entry ?inter" "\<not> intra_entry ?inter'"
    by (simp_all add: intra_entry_def inter_entry_def)
  have names: "entry_names [(0, ''a.csv''), (1, ''b.csv'')] ?intra = [''a.csv'']"
    "entry_names [(0, ''a.csv''), (1, ''b.csv''), (2, ''c.csv'')] ?inter' = [''b.csv'', ''c.csv'']"
    by (simp_all add: entry_names_def inter_entry_def keys_def file_name_of_def lookup_default_def)
  have a: "map_of (fast_prepare_output [(0, ''a.csv''), (1, ''b.csv'')] [?intra, ?inter]) ''ab''
      = Some [''a.csv'']"
    using fast_prefix_collapse [of "[?intra, ?inter]" "[]" ?intra "[]" ?inter "[]" "''ab''"
        "[(0, ''a.csv''), (1, ''b.csv'')]"] kinds names
    by simp
  have b: "map_of (fast_prepare_output [(0, ''a.csv''), (1, ''b.csv'')] [?inter, ?intra]) ''ab''
      = Some [''a.csv'']"
    using fast_prefix_collapse [of "[?inter, ?intra]" "[]" ?inter "[]" ?intra "[]" "''ab''"
        "[(0, ''a.csv''), (1, ''b.csv'')]"] kinds names
    by simp
  have c: "map_of (fast_prepare_output [(0, ''a.csv''), (1, ''b.csv''), (2, ''c.csv'')]
      [?inter, ?inter']) ''ab'' = Some [''b.csv'', ''c.csv'']"
    using fast_prefix_collapse [of "[?inter, ?inter']" "[]" ?inter "[]" ?inter' "[]" "''ab''"
        "[(0, ''a.csv''), (1, ''b.csv''), (2, ''c.csv'')]"] kinds names
    by simp
  from a b c show ?thesis by simp
qed

text \<open>
  C9 as stated fails: with a display prefix of two characters the hash of \<open>ab;1\<close>
  (twice in \<open>a.csv\<close>) is merged before the hash of \<open>ab;2\<close> (in both files), and the
  single entry \<open>ab\<close> of the report carries the file list of the earlier hash, not the
  list \<open>a.csv, b.csv\<close> of the later-merged one.
\<close>

theorem fast_prefix_collapse_earlier_wins:
  "fast_global_hashes hex_digest (\<lambda>tasks. tasks) corpus_shared_prefix
      [csv ''a.csv'' 26, csv ''b.csv'' 12] (default_config False\<lparr>write_length := 2\<rparr>)
     = [(''061623b31'', ''ab'', [(0, 2)]), (''061623b32'', ''ab'', [(0, 1), (1, 1)])]
   \<and> fast_output_data hex_digest (\<lambda>tasks. tasks) corpus_shared_prefix
      [csv ''a.csv'' 26, csv ''b.csv'' 12]
      (id_to_file_map [csv ''a.csv'' 26, csv ''b.csv'' 12])
      (default_config False\<lparr>write_length := 2\<rparr>)
     = [(''ab'', [''a.csv''])]"
  by code_simp

section \<open>The deletion pipeline on examples\<close>

text \<open>
  C2 on a failing input: \<open>a.csv\<close> and \<open>b.csv\<close> hold one line each with the same six key
  fields and a different seventh field.  The run with deletion reports the duplicate
  under the prefix of the line of \<open>a.csv\<close>; the line of \<open>b.csv\<close> has another prefix, so
  the collection stage finds the hash in one file only and nothing is deleted.  Both
  files are unchanged, and the second run reports the same duplicate again.
\<close>

theorem deletion_round_trip_fails:
  "(let files = [csv ''a.csv'' 21, csv ''b.csv'' 21];
        first_run = run_strategy_fast hex_digest (\<lambda>tasks. tasks) no_faults ''tmp0001.tmp'' True
                      corpus_same_key files (id_to_file_map files) (default_config True);
        second_run = run_strategy_fast hex_digest (\<lambda>tasks. tasks) no_faults ''tmp0001.tmp'' True
                      (fst first_run) files (id_to_file_map files) (default_config True)
    in (fst first_run ''a.csv'', fst first_run ''b.csv'', snd second_run))
   = (Some [''h1;h2'' @ [nl], ''1;2;3;4;5;6;x'' @ [nl]],
      Some [''h1;h2'' @ [nl], ''1;2;3;4;5;6;y'' @ [nl]],
      Inr [''1;2;3;4;5;6;x'' @ [nl], bullet @ ''a.csv'' @ [nl], bullet @ ''b.csv'' @ [nl]])"
  by code_simp


lemma fast_line_step:
  "keys_computable cfg \<Longrightarrow>
     fast_line H cfg d l = Inr (if strip l = [] then d else fast_step H cfg d (strip l))"
  by (simp add: fast_line_def fast_step_def normalize_line_key_of hash_line_def display_prefix_def
      Let_def split: option.splits)

lemma fast_step_invariant:
  "distinct (map fst (foldl (fast_step H cfg) [] ss)) \<and>
   (\<forall>h. map_of (foldl (fast_step H cfg) [] ss) h =
        map_option (\<lambda>s. (display_prefix cfg s, length (filter (\<lambda>t. hash_line H cfg t = h) ss)))
          (find (\<lambda>s. hash_line H cfg s = h) ss))"
proof (induction ss rule: rev_induct)
  case Nil
  then show ?case by simp
next
  case (snoc s ss)
  let ?d = "foldl (fast_step H cfg) [] ss"
  let ?h0 = "hash_line H cfg s"
  from snoc have dist: "distinct (map fst ?d)"
    and m: "\<And>h. map_of ?d h =
        map_option (\<lambda>s. (display_prefix cfg s, length (filter (\<lambda>t. hash_line H cfg t = h) ss)))
          (find (\<lambda>s. hash_line H cfg s = h) ss)"
    by simp_all
  show ?case
  proof (cases "map_of ?d ?h0")
    case None
    with m [of ?h0] have f0: "find (\<lambda>t. hash_line H cfg t = ?h0) ss = None"
      by simp
    have step: "foldl (fast_step H cfg) [] (ss @ [s]) = AList.update ?h0 (display_prefix cfg s, 1) ?d"
      using None by (simp add: fast_step_def)
    show ?thesis
      unfolding step
      using dist m f0 find_None_filter [OF f0]
      by (auto simp: update_conv' distinct_update find_append split: option.splits)
  next
    case (Some pn)
    obtain p n where pn: "pn = (p, n)" by (cases pn)
    from Some pn m [of ?h0] obtain s0 where f0: "find (\<lambda>t. hash_line H cfg t = ?h0) ss = Some s0"
      and p: "p = display_prefix cfg s0"
      and n: "n = length (filter (\<lambda>t. hash_line H cfg t = ?h0) ss)"
      by auto
    have step: "foldl (fast_step H cfg) [] (ss @ [s]) = AList.update ?h0 (p, n + 1) ?d"
      using Some pn by (simp add: fast_step_def)
    show ?thesis
      unfolding step
      using dist m f0 p n
      by (auto simp: update_conv' distinct_update find_append split: option.splits)
  qed
qed

lemma process_file_fast_result:
  assumes "keys_computable cfg" and "fs (name f) \<noteq> None"
  shows "\<exists>d. process_file_fast H fs f cfg = Inr d \<and> distinct (map fst d)
     \<and> (\<forall>h. map_of d h =
           map_option (\<lambda>s. (display_prefix cfg s, occurrences H cfg fs f h))
             (find (\<lambda>s. hash_line H cfg s = h) (data_lines fs f)))"
proof -
  from assms(2) obtain ls where ls: "fs (name f) = Some ls" by auto
  have "process_file_fast H fs f cfg = Inr (foldl (fast_step H cfg) [] (stripped_lines (drop 1 ls)))"
    using ls for_loop_stripped [of "fast_line H cfg" "fast_step H cfg", OF fast_line_step [OF assms(1)]]
    by (simp add: process_file_fast_def open_skip_header_def)
  moreover have "data_lines fs f = stripped_lines (drop 1 ls)"
    using ls by (simp add: data_lines_def)
  ultimately show ?thesis
    using fast_step_invariant [of H cfg "stripped_lines (drop 1 ls)"]
    by (simp add: occurrences_def)
qed


lemma fast_merge_items_map:
  assumes "distinct (map fst its)"
  shows "map_of (foldl (fast_merge_item i) gh its) h =
     (case map_of its h of
        None \<Rightarrow> map_of gh h
      | Some (p, n) \<Rightarrow>
          (case lookup_default ([], []) gh h of
             (p0, fc0) \<Rightarrow> Some (if p0 = [] then p else p0, AList.update i n fc0)))"
  using assms
proof (induction its arbitrary: gh)
  case Nil
  then show ?case by simp
next
  case (Cons it its)
  obtain h' p' n' where it: "it = (h', p', n')" by (cases it)
  obtain p0 fc0 where l0: "lookup_default ([], []) gh h' = (p0, fc0)"
    by (cases "lookup_default ([], []) gh h'")
  define v where "v = (if p0 = [] then p' else p0, AList.update i n' fc0)"
  let ?gh1 = "AList.update h' v gh"
  have step: "fast_merge_item i gh it = ?gh1"
    using it l0 by (simp add: fast_merge_item_def v_def)
  from Cons.prems have d: "distinct (map fst its)" and fresh: "h' \<notin> fst ` set its"
    using it by auto
  have IH: "map_of (foldl (fast_merge_item i) ?gh1 its) h =
     (case map_of its h of
        None \<Rightarrow> map_of ?gh1 h
      | Some (p, n) \<Rightarrow>
          (case lookup_default ([], []) ?gh1 h of
             (p0, fc0) \<Rightarrow> Some (if p0 = [] then p else p0, AList.update i n fc0)))"
    by (rule Cons.IH [OF d])
  show ?case
  proof (cases "h = h'")
    case True
    from fresh have "map_of its h' = None"
      by (simp add: map_of_eq_None_iff)
    with True IH it l0 step show ?thesis
      by (simp add: update_conv' v_def)
  next
    case False
    then have "lookup_default ([], []) ?gh1 h = lookup_default ([], []) gh h"
      by (simp add: lookup_default_def update_conv')
    with False IH it step show ?thesis
      by (simp add: update_conv' split: option.splits)
  qed
qed

lemma fast_merge_items_distinct:
  "distinct (map fst gh) \<Longrightarrow> distinct (map fst (foldl (fast_merge_item i) gh its))"
proof (induction its arbitrary: gh)
  case Nil
  then show ?case by simp
next
  case (Cons it its)
  have "distinct (map fst (fast_merge_item i gh it))"
    using Cons.prems by (simp add: fast_merge_item_def distinct_update split: prod.splits)
  then show ?case
    using Cons.IH by simp
qed

lemma counts_ok_empty:
  "\<forall>t \<in> set ts. occurrences H cfg fs (snd t) h = 0 \<Longrightarrow> counts_ok H cfg fs ts h []"
  by (fastforce simp: counts_ok_def)

lemma counts_ok_skip:
  "counts_ok H cfg fs ts h fc \<Longrightarrow> occurrences H cfg fs f h = 0
     \<Longrightarrow> counts_ok H cfg fs (ts @ [(i, f)]) h fc"
  by (auto simp: counts_ok_def)

lemma counts_ok_update:
  assumes "counts_ok H cfg fs ts h fc" and "i \<notin> fst ` set ts"
    and "0 < occurrences H cfg fs f h"
  shows "counts_ok H cfg fs (ts @ [(i, f)]) h (AList.update i (occurrences H cfg fs f h) fc)"
proof -
  from assms(1) have d: "distinct (map fst fc)"
    and m: "\<And>j n. map_of fc j = Some n
            \<longleftrightarrow> 0 < n \<and> (\<exists>g. (j, g) \<in> set ts \<and> occurrences H cfg fs g h = n)"
    by (simp_all add: counts_ok_def)
  have "map_of (AList.update i (occurrences H cfg fs f h) fc) j = Some n
      \<longleftrightarrow> 0 < n \<and> (\<exists>g. (j, g) \<in> set (ts @ [(i, f)]) \<and> occurrences H cfg fs g h = n)" for j n
  proof (cases "j = i")
    case True
    have "\<not> (\<exists>g. (i, g) \<in> set ts)"
      using assms(2) by force
    with True assms(3) show ?thesis
      by (auto simp: update_conv')
  next
    case False
    then show ?thesis
      by (auto simp: update_conv' m)
  qed
  with d show ?thesis
    by (simp add: counts_ok_def distinct_update)
qed


lemma fast_table_ok_fold:
  assumes delim: "keys_computable cfg"
  shows "distinct (map fst ts) \<Longrightarrow> \<forall>t \<in> set ts. fs (name (snd t)) \<noteq> None
    \<Longrightarrow> fast_table_ok H cfg fs ts (foldl (fast_merge_result H fs cfg) [] ts)"
proof (induction ts rule: rev_induct)
  case Nil
  then show ?case by (simp add: fast_table_ok_def)
next
  case (snoc t ts)
  obtain i f where t: "t = (i, f)" by (cases t)
  let ?gh = "foldl (fast_merge_result H fs cfg) [] ts"
  from snoc.prems t have fresh: "i \<notin> fst ` set ts" and readable: "fs (name f) \<noteq> None"
    by auto
  from snoc have ok: "fast_table_ok H cfg fs ts ?gh"
    by simp
  from process_file_fast_result [where fs = fs and f = f and H = H, OF delim readable]
  obtain d where d: "process_file_fast H fs f cfg = Inr d" and dd: "distinct (map fst d)"
    and md: "\<And>h. map_of d h =
           map_option (\<lambda>s. (display_prefix cfg s, occurrences H cfg fs f h))
             (find (\<lambda>s. hash_line H cfg s = h) (data_lines fs f))"
    by blast
  let ?gh' = "foldl (fast_merge_item i) ?gh d"
  have step: "foldl (fast_merge_result H fs cfg) [] (ts @ [(i, f)]) = ?gh'"
    using d by (simp add: fast_merge_result_def)
  have none: "map_of d h = None \<longleftrightarrow> occurrences H cfg fs f h = 0" for h
    by (auto simp: md occurrences_def find_None_iff filter_empty_conv)
  have some: "n = occurrences H cfg fs f h \<and> 0 < n
      \<and> (\<exists>s \<in> set (data_lines fs f). hash_line H cfg s = h \<and> p = display_prefix cfg s)"
    if "map_of d h = Some (p, n)" for h p n
  proof -
    from that md [of h] obtain s where "find (\<lambda>s. hash_line H cfg s = h) (data_lines fs f) = Some s"
      and "p = display_prefix cfg s" and "n = occurrences H cfg fs f h"
      by auto
    with find_Some_filter [of "\<lambda>s. hash_line H cfg s = h" "data_lines fs f" s]
    show ?thesis by (auto simp: occurrences_def)
  qed
  note mm = fast_merge_items_map [OF dd, of i ?gh]
  have old_none: "map_of ?gh h = None \<longleftrightarrow> (\<forall>t \<in> set ts. occurrences H cfg fs (snd t) h = 0)" for h
    using ok by (simp add: fast_table_ok_def)
  have old_some: "counts_ok H cfg fs ts h fc
          \<and> (\<exists>t \<in> set ts. \<exists>s \<in> set (data_lines fs (snd t)).
                hash_line H cfg s = h \<and> p = display_prefix cfg s)"
    if "map_of ?gh h = Some (p, fc)" for h p fc
    using ok that by (simp add: fast_table_ok_def)
  have p1: "distinct (map fst ?gh')"
    using ok by (simp add: fast_table_ok_def fast_merge_items_distinct)
  have p2: "map_of ?gh' h = None \<longleftrightarrow> (\<forall>t \<in> set (ts @ [(i, f)]). occurrences H cfg fs (snd t) h = 0)" for h
  proof (cases "map_of d h")
    case None
    with mm [of h] none [of h] old_none [of h] show ?thesis by auto
  next
    case (Some pn)
    with mm [of h] none [of h] show ?thesis
      by (auto split: prod.splits)
  qed
  have p3: "counts_ok H cfg fs (ts @ [(i, f)]) h fc
          \<and> (\<exists>t \<in> set (ts @ [(i, f)]). \<exists>s \<in> set (data_lines fs (snd t)).
                hash_line H cfg s = h \<and> p = display_prefix cfg s)"
    if new: "map_of ?gh' h = Some (p, fc)" for h p fc
  proof (cases "map_of d h")
    case None
    with mm [of h] new have "map_of ?gh h = Some (p, fc)" by simp
    from old_some [OF this] none [of h] None show ?thesis
      by (auto intro: counts_ok_skip)
  next
    case (Some pn)
    obtain q n where pn: "pn = (q, n)" by (cases pn)
    from some [of h q n] Some pn have n: "n = occurrences H cfg fs f h" and pos: "0 < n"
      and line: "\<exists>s \<in> set (data_lines fs f). hash_line H cfg s = h \<and> q = display_prefix cfg s"
      by auto
    show ?thesis
    proof (cases "map_of ?gh h")
      case None
      then have l: "lookup_default ([], []) ?gh h = ([], [])"
        by (simp add: lookup_default_def)
      from None old_none [of h] have "counts_ok H cfg fs ts h []"
        by (simp add: counts_ok_empty)
      from counts_ok_update [OF this fresh, of f] pos n
      have c: "counts_ok H cfg fs (ts @ [(i, f)]) h (AList.update i n [])"
        by simp
      from mm [of h] Some pn l new have "p = q" and "fc = AList.update i n []"
        by simp_all
      with c line show ?thesis by auto
    next
      case (Some pfc)
      obtain p0 fc0 where pfc: "pfc = (p0, fc0)" by (cases pfc)
      from Some pfc have l: "lookup_default ([], []) ?gh h = (p0, fc0)"
        by (simp add: lookup_default_def)
      from old_some [of h p0 fc0] Some pfc have c0: "counts_ok H cfg fs ts h fc0"
        and line0: "\<exists>t \<in> set ts. \<exists>s \<in> set (data_lines fs (snd t)).
                hash_line H cfg s = h \<and> p0 = display_prefix cfg s"
        by auto
      from counts_ok_update [OF c0 fresh, of f] pos n
      have c: "counts_ok H cfg fs (ts @ [(i, f)]) h (AList.update i n fc0)"
        by simp
      from mm [of h] \<open>map_of d h = Some pn\<close> pn l new
      have "p = (if p0 = [] then q else p0)" and "fc = AList.update i n fc0"
        by simp_all
      with c line line0 show ?thesis by auto
    qed
  qed
  from p1 p2 p3 show ?case
    unfolding t step fast_table_ok_def by blast
qed


lemma in_enumerate_files:
  "(i, f) \<in> set (enumerate_files files) \<longleftrightarrow> i < length files \<and> f = files ! i"
proof
  assume "(i, f) \<in> set (enumerate_files files)"
  then obtain n where "[0 ..< length files] ! n = i" and "files ! n = f" and "n < length files"
    by (auto simp: enumerate_files_def in_set_zip)
  then show "i < length files \<and> f = files ! i"
    by simp
next
  assume a: "i < length files \<and> f = files ! i"
  then have "zip [0 ..< length files] files ! i = (i, f)"
    by simp
  moreover from a have "i < length (zip [0 ..< length files] files)"
    by simp
  ultimately show "(i, f) \<in> set (enumerate_files files)"
    unfolding enumerate_files_def by (metis nth_mem)
qed

lemma completed_tasks:
  assumes "completes_all as_completed"
  shows "distinct (map fst (as_completed (enumerate_files files)))"
    and "set (as_completed (enumerate_files files)) = set (enumerate_files files)"
proof -
  from assms have m: "mset (as_completed (enumerate_files files)) = mset (enumerate_files files)"
    by (simp add: completes_all_def)
  have "map fst (enumerate_files files) = [0 ..< length files]"
    by (simp add: enumerate_files_def)
  then have "distinct (map fst (enumerate_files files))"
    by simp
  moreover from m have "mset (map fst (as_completed (enumerate_files files)))
      = mset (map fst (enumerate_files files))"
    by simp
  from mset_eq_imp_distinct_iff [OF this]
  have "distinct (map fst (as_completed (enumerate_files files)))
      \<longleftrightarrow> distinct (map fst (enumerate_files files))" .
  ultimately show "distinct (map fst (as_completed (enumerate_files files)))"
    by blast
  from m show "set (as_completed (enumerate_files files)) = set (enumerate_files files)"
    by (rule mset_eq_setD)
qed

lemma sum_list_filter_pos:
  "sum_list (map g (filter (\<lambda>x. 0 < g x) xs)) = sum_list (map g xs)" for g :: "'a \<Rightarrow> nat"
  by (induction xs) auto

lemma length_le_sum_list_pos:
  "\<forall>x \<in> set xs. 0 < g x \<Longrightarrow> length xs \<le> sum_list (map g xs)" for g :: "'a \<Rightarrow> nat"
  by (induction xs) (auto simp: Suc_le_eq)

lemma total_occurrences_files_with:
  "sum_list (map (\<lambda>i. occurrences H cfg fs (files ! i) h) (files_with H cfg fs files h))
     = total_occurrences H cfg fs files h"
proof -
  have "sum_list (map (\<lambda>i. occurrences H cfg fs (files ! i) h) (files_with H cfg fs files h))
      = sum_list (map (\<lambda>i. occurrences H cfg fs (files ! i) h) [0 ..< length files])"
    unfolding files_with_def by (rule sum_list_filter_pos)
  also have "map (\<lambda>i. occurrences H cfg fs (files ! i) h) [0 ..< length files]
      = map (\<lambda>f. occurrences H cfg fs f h) files"
    by (rule nth_equalityI) simp_all
  finally show ?thesis by (simp add: total_occurrences_def)
qed

lemma counts_ok_complete:
  assumes "counts_ok H cfg fs ts h fc" and "set ts = set (enumerate_files files)"
  shows "mset fc = mset (map (\<lambda>i. (i, occurrences H cfg fs (files ! i) h))
                           (files_with H cfg fs files h))"
proof -
  let ?r = "map (\<lambda>i. (i, occurrences H cfg fs (files ! i) h)) (files_with H cfg fs files h)"
  from assms(1) have d: "distinct (map fst fc)"
    and m: "\<And>i n. map_of fc i = Some n
            \<longleftrightarrow> 0 < n \<and> (\<exists>f. (i, f) \<in> set ts \<and> occurrences H cfg fs f h = n)"
    by (simp_all add: counts_ok_def)
  have dr: "distinct ?r"
    by (simp add: distinct_map files_with_def inj_on_def)
  have "(i, n) \<in> set fc \<longleftrightarrow> (i, n) \<in> set ?r" for i n
  proof -
    have "(i, n) \<in> set fc \<longleftrightarrow> map_of fc i = Some n"
      using d by simp
    also have "\<dots> \<longleftrightarrow> 0 < n \<and> i < length files \<and> occurrences H cfg fs (files ! i) h = n"
      by (auto simp: m assms(2) in_enumerate_files)
    also have "\<dots> \<longleftrightarrow> (i, n) \<in> set ?r"
      by (auto simp: files_with_def)
    finally show ?thesis .
  qed
  then have "set fc = set ?r"
    by auto
  moreover from d have "distinct fc"
    by (rule distinct_map [THEN iffD1, THEN conjunct1])
  ultimately have "set fc = set ?r" and "distinct fc"
    by simp_all
  from set_eq_iff_mset_eq_distinct [OF this(2) dr] this(1) show ?thesis
    by blast
qed

lemma counts_complete_facts:
  assumes "mset fc = mset (map (\<lambda>i. (i, occurrences H cfg fs (files ! i) h))
                           (files_with H cfg fs files h))"
  shows "sort (keys fc) = files_with H cfg fs files h"
    and "length fc = length (files_with H cfg fs files h)"
    and "sum_list (map snd fc) = total_occurrences H cfg fs files h"
proof -
  let ?r = "map (\<lambda>i. (i, occurrences H cfg fs (files ! i) h)) (files_with H cfg fs files h)"
  from assms have "image_mset fst (mset fc) = image_mset fst (mset ?r)"
    by (simp only:)
  then have "mset (map fst fc) = mset (map fst ?r)"
    by (simp only: mset_map)
  then have "mset (files_with H cfg fs files h) = mset (keys fc)"
    by (simp add: keys_def comp_def)
  moreover have "sorted (files_with H cfg fs files h)"
    by (simp add: files_with_def sorted_wrt_filter)
  ultimately show "sort (keys fc) = files_with H cfg fs files h"
    by (rule properties_for_sort)
  from assms have "size (mset fc) = size (mset ?r)"
    by simp
  then show "length fc = length (files_with H cfg fs files h)"
    by simp
  from assms have "image_mset snd (mset fc) = image_mset snd (mset ?r)"
    by (simp only:)
  then have "mset (map snd fc) = mset (map snd ?r)"
    by (simp only: mset_map)
  then have "sum_mset (mset (map snd fc)) = sum_mset (mset (map snd ?r))"
    by (simp only:)
  then have "sum_list (map snd fc) = sum_list (map snd ?r)"
    by (simp only: sum_mset_sum_list)
  then show "sum_list (map snd fc) = total_occurrences H cfg fs files h"
    by (simp add: comp_def total_occurrences_files_with)
qed


lemma files_with_bound: "i \<in> set (files_with H cfg fs files h) \<Longrightarrow> i < length files"
  by (simp add: files_with_def)

lemma names_files_with:
  "map (file_name_of (id_to_file_map files)) (files_with H cfg fs files h)
     = map (\<lambda>i. name (files ! i)) (files_with H cfg fs files h)"
  by (rule map_cong [OF refl]) (simp add: file_name_of_id_to_file_map files_with_bound)

lemma length_files_with_le_total:
  "length (files_with H cfg fs files h) \<le> total_occurrences H cfg fs files h"
proof -
  have "length (files_with H cfg fs files h)
      \<le> sum_list (map (\<lambda>i. occurrences H cfg fs (files ! i) h) (files_with H cfg fs files h))"
    by (rule length_le_sum_list_pos) (simp add: files_with_def)
  then show ?thesis
    by (simp add: total_occurrences_files_with)
qed

text \<open>
  What the branches on the counters of a hash give, once every worker has been merged.
\<close>

lemma counters_decide:
  assumes "mset fc = mset (map (\<lambda>i. (i, occurrences H cfg fs (files ! i) h))
                           (files_with H cfg fs files h))"
  shows "(1 < length fc \<or> 1 < sum_list (map snd fc)) \<longleftrightarrow> 1 < total_occurrences H cfg fs files h"
    and "1 < length fc \<Longrightarrow> map (file_name_of (id_to_file_map files)) (sort (keys fc))
           = map (\<lambda>i. name (files ! i)) (files_with H cfg fs files h)"
    and "\<not> 1 < length fc \<Longrightarrow> 1 < sum_list (map snd fc) \<Longrightarrow>
           \<exists>i rest. keys fc = i # rest \<and> [file_name_of (id_to_file_map files) i]
             = map (\<lambda>i. name (files ! i)) (files_with H cfg fs files h)"
proof -
  note facts = counts_complete_facts [OF assms]
  show "(1 < length fc \<or> 1 < sum_list (map snd fc)) \<longleftrightarrow> 1 < total_occurrences H cfg fs files h"
    using facts(2,3) length_files_with_le_total [of H cfg fs files h] by auto
  show "map (file_name_of (id_to_file_map files)) (sort (keys fc))
           = map (\<lambda>i. name (files ! i)) (files_with H cfg fs files h)"
    by (simp only: facts(1) names_files_with)
  show "\<exists>i rest. keys fc = i # rest \<and> [file_name_of (id_to_file_map files) i]
             = map (\<lambda>i. name (files ! i)) (files_with H cfg fs files h)"
    if "\<not> 1 < length fc" and "1 < sum_list (map snd fc)"
  proof -
    from that obtain x where fc: "fc = [x]"
      by (cases fc) (auto simp: Suc_lessI)
    with facts(1) have "files_with H cfg fs files h = [fst x]"
      by (simp add: keys_def)
    with fc names_files_with [of files H cfg fs h] show ?thesis
      by (simp add: keys_def)
  qed
qed

lemma fast_prepare_output_iff:
  assumes "\<And>e e'. e \<in> set gh \<Longrightarrow> e' \<in> set gh \<Longrightarrow> fst (snd e) = fst (snd e')
      \<Longrightarrow> inter_entry e \<or> intra_entry e \<Longrightarrow> inter_entry e' \<or> intra_entry e'
      \<Longrightarrow> entry_names id_map e = entry_names id_map e'"
  shows "map_of (fast_prepare_output id_map gh) q = Some v
     \<longleftrightarrow> (\<exists>e \<in> set gh. fst (snd e) = q \<and> (inter_entry e \<or> intra_entry e)
            \<and> v = entry_names id_map e)"
proof
  assume "map_of (fast_prepare_output id_map gh) q = Some v"
  then show "\<exists>e \<in> set gh. fst (snd e) = q \<and> (inter_entry e \<or> intra_entry e)
            \<and> v = entry_names id_map e"
    unfolding fast_prepare_output_map
    by (auto split: option.splits dest!: find_Some_filter)
next
  assume "\<exists>e \<in> set gh. fst (snd e) = q \<and> (inter_entry e \<or> intra_entry e)
            \<and> v = entry_names id_map e"
  then obtain e where e: "e \<in> set gh" "fst (snd e) = q" "inter_entry e \<or> intra_entry e"
    and v: "v = entry_names id_map e"
    by blast
  have some: "\<exists>e1. (find (\<lambda>e. fst (snd e) = q \<and> intra_entry e) (rev gh) = Some e1
          \<or> find (\<lambda>e. fst (snd e) = q \<and> intra_entry e) (rev gh) = None
            \<and> find (\<lambda>e. fst (snd e) = q \<and> inter_entry e) (rev gh) = Some e1)"
  proof (cases "find (\<lambda>e. fst (snd e) = q \<and> intra_entry e) (rev gh)")
    case None
    then have "\<forall>x \<in> set gh. \<not> (fst (snd x) = q \<and> intra_entry x)"
      by (simp only: find_None_iff set_rev) blast
    with e have "inter_entry e"
      by blast
    with e have "\<exists>x. x \<in> set (rev gh) \<and> fst (snd x) = q \<and> inter_entry x"
      by (simp only: set_rev) blast
    then have "find (\<lambda>e. fst (snd e) = q \<and> inter_entry e) (rev gh) \<noteq> None"
      by (simp only: find_None_iff not_not)
    with None show ?thesis by blast
  next
    case (Some e1)
    then show ?thesis by blast
  qed
  then obtain e1 where c: "find (\<lambda>e. fst (snd e) = q \<and> intra_entry e) (rev gh) = Some e1
          \<or> find (\<lambda>e. fst (snd e) = q \<and> intra_entry e) (rev gh) = None
            \<and> find (\<lambda>e. fst (snd e) = q \<and> inter_entry e) (rev gh) = Some e1"
    by blast
  then have m1: "map_of (fast_prepare_output id_map gh) q = Some (entry_names id_map e1)"
    by (elim disjE conjE) (simp_all add: fast_prepare_output_map)
  from c have p1: "e1 \<in> set gh \<and> fst (snd e1) = q \<and> (inter_entry e1 \<or> intra_entry e1)"
  proof (elim disjE conjE)
    assume "find (\<lambda>e. fst (snd e) = q \<and> intra_entry e) (rev gh) = Some e1"
    from find_Some_filter [OF this] show ?thesis by simp
  next
    assume "find (\<lambda>e. fst (snd e) = q \<and> inter_entry e) (rev gh) = Some e1"
    from find_Some_filter [OF this] show ?thesis by simp
  qed
  with assms [of e1 e] e v m1 show "map_of (fast_prepare_output id_map gh) q = Some v"
    by simp
qed


lemma enumerate_files_snd: "t \<in> set (enumerate_files files) \<Longrightarrow> snd t \<in> set files"
  by (cases t) (simp add: in_enumerate_files)

lemma completed_tasks_readable:
  assumes "completes_all as_completed" and "\<forall>f \<in> set files. fs (name f) \<noteq> None"
  shows "\<forall>t \<in> set (as_completed (enumerate_files files)). fs (name (snd t)) \<noteq> None"
proof
  fix t assume "t \<in> set (as_completed (enumerate_files files))"
  then have "t \<in> set (enumerate_files files)"
    using completed_tasks(2) [OF assms(1), of files] by simp
  then have "snd t \<in> set files"
    by (rule enumerate_files_snd)
  with assms(2) show "fs (name (snd t)) \<noteq> None" by blast
qed

lemma occurrences_pos_iff:
  "0 < occurrences H cfg fs f h \<longleftrightarrow> (\<exists>s \<in> set (data_lines fs f). hash_line H cfg s = h)"
  by (auto simp: occurrences_def filter_empty_conv)

lemma fast_entries:
  assumes delim: "keys_computable cfg"
    and readable: "\<forall>f \<in> set files. fs (name f) \<noteq> None"
    and comp: "completes_all as_completed"
  shows "distinct (map fst (fast_global_hashes H as_completed fs files cfg))"
    and "\<And>h p fc. (h, p, fc) \<in> set (fast_global_hashes H as_completed fs files cfg) \<Longrightarrow>
           mset fc = mset (map (\<lambda>i. (i, occurrences H cfg fs (files ! i) h))
                           (files_with H cfg fs files h))
         \<and> (\<exists>s \<in> corpus_lines fs files. hash_line H cfg s = h \<and> p = display_prefix cfg s)"
    and "\<And>s. s \<in> corpus_lines fs files \<Longrightarrow>
           \<exists>p fc. (hash_line H cfg s, p, fc) \<in> set (fast_global_hashes H as_completed fs files cfg)"
proof -
  let ?ts = "as_completed (enumerate_files files)"
  let ?gh = "fast_global_hashes H as_completed fs files cfg"
  note ct = completed_tasks [OF comp, of files]
  have ok: "fast_table_ok H cfg fs ?ts ?gh"
    unfolding fast_global_hashes_def
    by (rule fast_table_ok_fold [OF delim ct(1) completed_tasks_readable [OF comp readable]])
  then show d: "distinct (map fst ?gh)"
    by (simp add: fast_table_ok_def)
  show "mset fc = mset (map (\<lambda>i. (i, occurrences H cfg fs (files ! i) h))
                           (files_with H cfg fs files h))
         \<and> (\<exists>s \<in> corpus_lines fs files. hash_line H cfg s = h \<and> p = display_prefix cfg s)"
    if "(h, p, fc) \<in> set ?gh" for h p fc
  proof -
    from that d have "map_of ?gh h = Some (p, fc)"
      by simp
    with ok have c: "counts_ok H cfg fs ?ts h fc"
      and l: "\<exists>t \<in> set ?ts. \<exists>s \<in> set (data_lines fs (snd t)).
                hash_line H cfg s = h \<and> p = display_prefix cfg s"
      unfolding fast_table_ok_def by blast+
    from l obtain t s where t: "t \<in> set ?ts" and s: "s \<in> set (data_lines fs (snd t))"
      and hs: "hash_line H cfg s = h" "p = display_prefix cfg s"
      by blast
    from t ct(2) have "t \<in> set (enumerate_files files)"
      by simp
    then have "snd t \<in> set files"
      by (rule enumerate_files_snd)
    with s have "s \<in> corpus_lines fs files"
      unfolding corpus_lines_def by blast
    with hs counts_ok_complete [OF c ct(2)] show ?thesis
      by blast
  qed
  show "\<exists>p fc. (hash_line H cfg s, p, fc) \<in> set ?gh" if "s \<in> corpus_lines fs files" for s
  proof -
    from that obtain f where f: "f \<in> set files" and s: "s \<in> set (data_lines fs f)"
      unfolding corpus_lines_def by blast
    from f obtain i where "i < length files" and "f = files ! i"
      by (auto simp: in_set_conv_nth)
    then have "(i, f) \<in> set ?ts"
      by (simp add: ct(2) in_enumerate_files)
    moreover from s have "0 < occurrences H cfg fs f (hash_line H cfg s)"
      unfolding occurrences_pos_iff by blast
    ultimately have "\<not> (\<forall>t \<in> set ?ts. occurrences H cfg fs (snd t) (hash_line H cfg s) = 0)"
      by force
    with ok have "map_of ?gh (hash_line H cfg s) \<noteq> None"
      unfolding fast_table_ok_def by blast
    then obtain pfc where "map_of ?gh (hash_line H cfg s) = Some pfc"
      by blast
    then have "(hash_line H cfg s, fst pfc, snd pfc) \<in> set ?gh"
      by (simp add: map_of_SomeD)
    then show ?thesis by blast
  qed
qed

lemma fast_output_reported:
  assumes delim: "keys_computable cfg"
    and readable: "\<forall>f \<in> set files. fs (name f) \<noteq> None"
    and comp: "completes_all as_completed"
    and agree: "prefix_tells_hash H cfg fs files"
  shows "map_of (fast_output_data H as_completed fs files (id_to_file_map files) cfg) q = Some v
     \<longleftrightarrow> reported H cfg fs files q v"
proof -
  let ?gh = "fast_global_hashes H as_completed fs files cfg"
  let ?idm = "id_to_file_map files"
  note ent = fast_entries [where H = H, OF delim readable comp]
  have entry: "\<exists>s \<in> corpus_lines fs files. hash_line H cfg s = fst e
        \<and> fst (snd e) = display_prefix cfg s
        \<and> ((inter_entry e \<or> intra_entry e) \<longleftrightarrow> 1 < total_occurrences H cfg fs files (fst e))
        \<and> (inter_entry e \<or> intra_entry e \<longrightarrow>
             entry_names ?idm e = map (\<lambda>i. name (files ! i)) (files_with H cfg fs files (fst e)))"
    if "e \<in> set ?gh" for e
  proof -
    obtain h p fc where e: "e = (h, p, fc)" by (cases e)
    from ent(2) [of h p fc] that e
    have k: "mset fc = mset (map (\<lambda>i. (i, occurrences H cfg fs (files ! i) h))
                           (files_with H cfg fs files h))"
      and l: "\<exists>s \<in> corpus_lines fs files. hash_line H cfg s = h \<and> p = display_prefix cfg s"
      by blast+
    note cd = counters_decide [OF k]
    have dup: "(inter_entry e \<or> intra_entry e) \<longleftrightarrow> 1 < total_occurrences H cfg fs files h"
      using cd(1) by (auto simp: e inter_entry_def intra_entry_def)
    have names: "entry_names ?idm e = map (\<lambda>i. name (files ! i)) (files_with H cfg fs files h)"
      if "inter_entry e \<or> intra_entry e"
    proof (cases "1 < length fc")
      case True
      with cd(2) show ?thesis
        by (simp add: e entry_names_def inter_entry_def)
    next
      case False
      with that have "1 < sum_list (map snd fc)"
        by (simp add: e inter_entry_def intra_entry_def)
      from cd(3) [OF False this] False show ?thesis
        by (auto simp: e entry_names_def inter_entry_def)
    qed
    from l dup names show ?thesis
      by (simp add: e)
  qed
  have unique: "entry_names ?idm e = entry_names ?idm e'"
    if u1: "e \<in> set ?gh" and u2: "e' \<in> set ?gh" and u3: "fst (snd e) = fst (snd e')"
      and u4: "inter_entry e \<or> intra_entry e" and u5: "inter_entry e' \<or> intra_entry e'" for e e'
  proof -
    from entry [OF u1] obtain s where s: "s \<in> corpus_lines fs files"
      "hash_line H cfg s = fst e" "fst (snd e) = display_prefix cfg s"
      and n: "entry_names ?idm e = map (\<lambda>i. name (files ! i)) (files_with H cfg fs files (fst e))"
      using u4 by blast
    from entry [OF u2] obtain s' where s': "s' \<in> corpus_lines fs files"
      "hash_line H cfg s' = fst e'" "fst (snd e') = display_prefix cfg s'"
      and n': "entry_names ?idm e' = map (\<lambda>i. name (files ! i)) (files_with H cfg fs files (fst e'))"
      using u5 by blast
    from agree s s' u3 have "fst e = fst e'"
      unfolding prefix_tells_hash_def by metis
    with n n' show ?thesis by simp
  qed
  have iff: "map_of (fast_prepare_output ?idm ?gh) q = Some v
     \<longleftrightarrow> (\<exists>e \<in> set ?gh. fst (snd e) = q \<and> (inter_entry e \<or> intra_entry e)
            \<and> v = entry_names ?idm e)"
    by (rule fast_prepare_output_iff) (rule unique)
  show ?thesis
  proof
    assume "map_of (fast_output_data H as_completed fs files ?idm cfg) q = Some v"
    then obtain e where e: "e \<in> set ?gh" "fst (snd e) = q" "inter_entry e \<or> intra_entry e"
      "v = entry_names ?idm e"
      unfolding fast_output_data_def iff by blast
    from entry [OF e(1)] e(2,3,4) show "reported H cfg fs files q v"
      unfolding reported_def by metis
  next
    assume "reported H cfg fs files q v"
    then obtain s where s: "s \<in> corpus_lines fs files" "display_prefix cfg s = q"
      "1 < total_occurrences H cfg fs files (hash_line H cfg s)"
      "v = map (\<lambda>i. name (files ! i)) (files_with H cfg fs files (hash_line H cfg s))"
      unfolding reported_def by blast
    from ent(3) [OF s(1)] obtain p fc where m: "(hash_line H cfg s, p, fc) \<in> set ?gh"
      by blast
    from entry [OF m] obtain s' where s': "s' \<in> corpus_lines fs files"
      "hash_line H cfg s' = hash_line H cfg s" "p = display_prefix cfg s'"
      and dup: "(inter_entry (hash_line H cfg s, p, fc) \<or> intra_entry (hash_line H cfg s, p, fc))
          \<longleftrightarrow> 1 < total_occurrences H cfg fs files (hash_line H cfg s)"
      and names: "inter_entry (hash_line H cfg s, p, fc) \<or> intra_entry (hash_line H cfg s, p, fc) \<longrightarrow>
             entry_names ?idm (hash_line H cfg s, p, fc)
               = map (\<lambda>i. name (files ! i)) (files_with H cfg fs files (hash_line H cfg s))"
      by auto
    from agree s(1) s'(1,2) have "display_prefix cfg s' = display_prefix cfg s"
      unfolding prefix_tells_hash_def by metis
    with s' s(2) have "p = q" by simp
    with m dup names s(3,4)
    have "\<exists>e \<in> set ?gh. fst (snd e) = q \<and> (inter_entry e \<or> intra_entry e)
            \<and> v = entry_names ?idm e"
      by force
    then show "map_of (fast_output_data H as_completed fs files ?idm cfg) q = Some v"
      unfolding fast_output_data_def iff .
  qed
qed

section \<open>Dictionaries filled by a loop of conditional assignments\<close>

lemma fold_updates_iff:
  assumes "\<And>x y. x \<in> set xs \<Longrightarrow> y \<in> set xs \<Longrightarrow> c x \<Longrightarrow> c y \<Longrightarrow> k x = k y \<Longrightarrow> v x = v y"
  shows "distinct (map fst (foldl (\<lambda>out x. if c x then AList.update (k x) (v x) out else out) [] xs))
    \<and> (\<forall>q w. map_of (foldl (\<lambda>out x. if c x then AList.update (k x) (v x) out else out) [] xs) q = Some w
          \<longleftrightarrow> (\<exists>x \<in> set xs. c x \<and> k x = q \<and> w = v x))"
  using assms
proof (induction xs rule: rev_induct)
  case Nil
  then show ?case by simp
next
  case (snoc x xs)
  let ?f = "\<lambda>out x. if c x then AList.update (k x) (v x) out else out"
  let ?out = "foldl ?f [] xs"
  have fn: "\<And>x y. x \<in> set xs \<Longrightarrow> y \<in> set xs \<Longrightarrow> c x \<Longrightarrow> c y \<Longrightarrow> k x = k y \<Longrightarrow> v x = v y"
    using snoc.prems by simp
  from snoc.IH [OF fn] have d: "distinct (map fst ?out)"
    and m: "\<And>q w. map_of ?out q = Some w \<longleftrightarrow> (\<exists>y \<in> set xs. c y \<and> k y = q \<and> w = v y)"
    by blast+
  show ?case
  proof (cases "c x")
    case False
    with d m show ?thesis by auto
  next
    case True
    have same: "v y = v x" if "y \<in> set xs" "c y" "k y = k x" for y
      using snoc.prems [of y x] that True by simp
    have "map_of (AList.update (k x) (v x) ?out) q = Some w
        \<longleftrightarrow> (\<exists>y \<in> set (xs @ [x]). c y \<and> k y = q \<and> w = v y)" for q w
    proof (cases "q = k x")
      case True
      with \<open>c x\<close> same show ?thesis
        by (auto simp: update_conv')
    next
      case False
      with m [of q w] show ?thesis
        by (auto simp: update_conv')
    qed
    with d True show ?thesis
      by (simp add: distinct_update)
  qed
qed

section \<open>The SAFE engine: first pass\<close>

lemma safe_pass1_line_step:
  "keys_computable cfg \<Longrightarrow>
     safe_pass1_line H cfg d l = Inr (if strip l = [] then d else safe_pass1_step H cfg d (strip l))"
  by (simp add: safe_pass1_line_def safe_pass1_step_def normalize_line_key_of hash_line_def Let_def)

lemma safe_pass1_step_invariant:
  "distinct (map fst (foldl (safe_pass1_step H cfg) [] ss)) \<and>
   (\<forall>h. map_of (foldl (safe_pass1_step H cfg) [] ss) h =
        (if filter (\<lambda>t. hash_line H cfg t = h) ss = [] then None
         else Some (length (filter (\<lambda>t. hash_line H cfg t = h) ss))))"
proof (induction ss rule: rev_induct)
  case Nil
  then show ?case by simp
next
  case (snoc s ss)
  let ?d = "foldl (safe_pass1_step H cfg) [] ss"
  have step: "foldl (safe_pass1_step H cfg) [] (ss @ [s])
      = AList.update (hash_line H cfg s) (lookup_default 0 ?d (hash_line H cfg s) + 1) ?d"
    by (simp add: safe_pass1_step_def counter_incr_def)
  from snoc show ?case
    unfolding step
    by (auto simp: update_conv' distinct_update lookup_default_def)
qed

lemma process_file_safe_pass1_result:
  assumes "keys_computable cfg" and "fs (name f) \<noteq> None"
  shows "\<exists>d. process_file_safe_pass1 H fs f cfg = Inr d \<and> distinct (map fst d)
     \<and> (\<forall>h. map_of d h =
           (if occurrences H cfg fs f h = 0 then None else Some (occurrences H cfg fs f h)))"
proof -
  from assms(2) obtain ls where ls: "fs (name f) = Some ls" by auto
  have "process_file_safe_pass1 H fs f cfg
      = Inr (foldl (safe_pass1_step H cfg) [] (stripped_lines (drop 1 ls)))"
    using ls for_loop_stripped [of "safe_pass1_line H cfg" "safe_pass1_step H cfg",
        OF safe_pass1_line_step [OF assms(1)]]
    by (simp add: process_file_safe_pass1_def open_skip_header_def)
  moreover have "data_lines fs f = stripped_lines (drop 1 ls)"
    using ls by (simp add: data_lines_def)
  ultimately show ?thesis
    using safe_pass1_step_invariant [of H cfg "stripped_lines (drop 1 ls)"]
    by (simp add: occurrences_def)
qed

lemma safe_merge_items_map:
  assumes "distinct (map fst its)"
  shows "map_of (foldl (safe_merge_item i) t its) h =
     (case map_of its h of
        None \<Rightarrow> map_of t h
      | Some n \<Rightarrow> Some (AList.update i n (lookup_default [] t h)))"
  using assms
proof (induction its arbitrary: t)
  case Nil
  then show ?case by simp
next
  case (Cons it its)
  obtain h' n' where it: "it = (h', n')" by (cases it)
  define v where "v = AList.update i n' (lookup_default [] t h')"
  let ?t1 = "AList.update h' v t"
  have step: "safe_merge_item i t it = ?t1"
    using it by (simp add: safe_merge_item_def v_def)
  from Cons.prems have d: "distinct (map fst its)" and fresh: "h' \<notin> fst ` set its"
    using it by auto
  note IH = Cons.IH [OF d, of ?t1]
  show ?case
  proof (cases "h = h'")
    case True
    from fresh have "map_of its h' = None"
      by (simp add: map_of_eq_None_iff)
    with True IH it step show ?thesis
      by (simp add: update_conv' v_def)
  next
    case False
    then have "lookup_default [] ?t1 h = lookup_default [] t h"
      by (simp add: lookup_default_def update_conv')
    with False IH it step show ?thesis
      by (simp add: update_conv' split: option.splits)
  qed
qed

lemma safe_merge_items_distinct:
  "distinct (map fst t) \<Longrightarrow> distinct (map fst (foldl (safe_merge_item i) t its))"
proof (induction its arbitrary: t)
  case Nil
  then show ?case by simp
next
  case (Cons it its)
  have "distinct (map fst (safe_merge_item i t it))"
    using Cons.prems by (simp add: safe_merge_item_def distinct_update)
  then show ?case
    using Cons.IH by simp
qed

lemma safe_table_ok_fold:
  assumes delim: "keys_computable cfg"
  shows "distinct (map fst ts) \<Longrightarrow> \<forall>t \<in> set ts. fs (name (snd t)) \<noteq> None
    \<Longrightarrow> safe_table_ok H cfg fs ts (foldl (safe_merge_result H fs cfg) [] ts)"
proof (induction ts rule: rev_induct)
  case Nil
  then show ?case by (simp add: safe_table_ok_def)
next
  case (snoc t ts)
  obtain i f where t: "t = (i, f)" by (cases t)
  let ?tb = "foldl (safe_merge_result H fs cfg) [] ts"
  from snoc.prems t have fresh: "i \<notin> fst ` set ts" and readable: "fs (name f) \<noteq> None"
    by auto
  from snoc have ok: "safe_table_ok H cfg fs ts ?tb"
    by simp
  from process_file_safe_pass1_result [where fs = fs and f = f and H = H, OF delim readable]
  obtain d where d: "process_file_safe_pass1 H fs f cfg = Inr d" and dd: "distinct (map fst d)"
    and md: "\<And>h. map_of d h =
           (if occurrences H cfg fs f h = 0 then None else Some (occurrences H cfg fs f h))"
    by blast
  let ?tb' = "foldl (safe_merge_item i) ?tb d"
  have step: "foldl (safe_merge_result H fs cfg) [] (ts @ [(i, f)]) = ?tb'"
    using d by (simp add: safe_merge_result_def)
  note mm = safe_merge_items_map [OF dd, of i ?tb]
  have old_none: "map_of ?tb h = None \<longleftrightarrow> (\<forall>t \<in> set ts. occurrences H cfg fs (snd t) h = 0)" for h
    using ok by (simp add: safe_table_ok_def)
  have old_some: "counts_ok H cfg fs ts h fc" if "map_of ?tb h = Some fc" for h fc
    using ok that by (simp add: safe_table_ok_def)
  have p1: "distinct (map fst ?tb')"
    using ok by (simp add: safe_table_ok_def safe_merge_items_distinct)
  have p2: "map_of ?tb' h = None \<longleftrightarrow> (\<forall>t \<in> set (ts @ [(i, f)]). occurrences H cfg fs (snd t) h = 0)" for h
    using mm [of h] md [of h] old_none [of h] by (auto split: if_splits)
  have p3: "counts_ok H cfg fs (ts @ [(i, f)]) h fc" if new: "map_of ?tb' h = Some fc" for h fc
  proof (cases "occurrences H cfg fs f h = 0")
    case True
    with mm [of h] md [of h] new have "map_of ?tb h = Some fc" by simp
    from old_some [OF this] True show ?thesis
      by (rule counts_ok_skip)
  next
    case False
    with mm [of h] md [of h] new
    have fc: "fc = AList.update i (occurrences H cfg fs f h) (lookup_default [] ?tb h)"
      by simp
    have "counts_ok H cfg fs ts h (lookup_default [] ?tb h)"
    proof (cases "map_of ?tb h")
      case None
      with old_none [of h] show ?thesis
        by (simp add: lookup_default_def counts_ok_empty)
    next
      case (Some fc0)
      with old_some [of h fc0] show ?thesis
        by (simp add: lookup_default_def)
    qed
    from counts_ok_update [OF this fresh, of f] False show ?thesis
      by (simp add: fc)
  qed
  from p1 p2 p3 show ?case
    unfolding t step safe_table_ok_def by blast
qed

section \<open>The SAFE engine: duplicated hashes, second pass, output\<close>

lemma reportable_complete:
  assumes "mset fc = mset (map (\<lambda>i. (i, occurrences H cfg fs (files ! i) h))
                           (files_with H cfg fs files h))"
  shows "reportable fc \<longleftrightarrow> 1 < total_occurrences H cfg fs files h"
    and "reportable fc \<Longrightarrow> names_for (id_to_file_map files) fc
           = map (\<lambda>i. name (files ! i)) (files_with H cfg fs files h)"
proof -
  note cd = counters_decide [OF assms]
  have ne: "fc \<noteq> []" if "1 < sum_list (map snd fc)"
    using that by auto
  with cd(1) show r: "reportable fc \<longleftrightarrow> 1 < total_occurrences H cfg fs files h"
    by (auto simp: reportable_def)
  show "names_for (id_to_file_map files) fc
           = map (\<lambda>i. name (files ! i)) (files_with H cfg fs files h)" if "reportable fc"
  proof (cases "1 < length fc")
    case True
    with cd(2) show ?thesis by (simp add: names_for_def)
  next
    case False
    with that have "1 < sum_list (map snd fc)"
      by (simp add: reportable_def)
    from cd(3) [OF False this] False show ?thesis
      by (auto simp: names_for_def)
  qed
qed

lemma occurrences_zero_iff:
  "occurrences H cfg fs f h = 0 \<longleftrightarrow> \<not> (\<exists>s \<in> set (data_lines fs f). hash_line H cfg s = h)"
  using occurrences_pos_iff [of H cfg fs f h] by auto

lemma safe_entries:
  assumes delim: "keys_computable cfg"
    and readable: "\<forall>f \<in> set files. fs (name f) \<noteq> None"
    and comp: "completes_all as_completed"
  shows "distinct (map fst (safe_hash_to_file_counts H as_completed fs files cfg))"
    and "\<And>h fc. map_of (safe_hash_to_file_counts H as_completed fs files cfg) h = Some fc \<Longrightarrow>
           mset fc = mset (map (\<lambda>i. (i, occurrences H cfg fs (files ! i) h))
                           (files_with H cfg fs files h))"
    and "\<And>h. map_of (safe_hash_to_file_counts H as_completed fs files cfg) h = None
           \<longleftrightarrow> \<not> (\<exists>s \<in> corpus_lines fs files. hash_line H cfg s = h)"
proof -
  let ?ts = "as_completed (enumerate_files files)"
  let ?tb = "safe_hash_to_file_counts H as_completed fs files cfg"
  note ct = completed_tasks [OF comp, of files]
  have ok: "safe_table_ok H cfg fs ?ts ?tb"
    unfolding safe_hash_to_file_counts_def
    by (rule safe_table_ok_fold [OF delim ct(1) completed_tasks_readable [OF comp readable]])
  then show "distinct (map fst ?tb)"
    by (simp add: safe_table_ok_def)
  show "mset fc = mset (map (\<lambda>i. (i, occurrences H cfg fs (files ! i) h))
                           (files_with H cfg fs files h))"
    if "map_of ?tb h = Some fc" for h fc
  proof -
    from ok that have "counts_ok H cfg fs ?ts h fc"
      unfolding safe_table_ok_def by blast
    then show ?thesis
      by (rule counts_ok_complete [OF _ ct(2)])
  qed
  show "map_of ?tb h = None \<longleftrightarrow> \<not> (\<exists>s \<in> corpus_lines fs files. hash_line H cfg s = h)" for h
  proof -
    have "map_of ?tb h = None \<longleftrightarrow> (\<forall>t \<in> set (enumerate_files files). occurrences H cfg fs (snd t) h = 0)"
      using ok ct(2) unfolding safe_table_ok_def by simp
    also have "\<dots> \<longleftrightarrow> (\<forall>f \<in> set files. occurrences H cfg fs f h = 0)"
    proof
      assume a: "\<forall>t \<in> set (enumerate_files files). occurrences H cfg fs (snd t) h = 0"
      show "\<forall>f \<in> set files. occurrences H cfg fs f h = 0"
      proof
        fix f assume "f \<in> set files"
        then obtain i where "i < length files" "f = files ! i"
          by (auto simp: in_set_conv_nth)
        then have "(i, f) \<in> set (enumerate_files files)"
          by (simp add: in_enumerate_files)
        with a show "occurrences H cfg fs f h = 0" by force
      qed
    next
      assume "\<forall>f \<in> set files. occurrences H cfg fs f h = 0"
      then show "\<forall>t \<in> set (enumerate_files files). occurrences H cfg fs (snd t) h = 0"
        using enumerate_files_snd by blast
    qed
    also have "\<dots> \<longleftrightarrow> \<not> (\<exists>s \<in> corpus_lines fs files. hash_line H cfg s = h)"
      by (simp add: corpus_lines_def occurrences_zero_iff)
    finally show ?thesis .
  qed
qed

lemma safe_duplicate_hashes_iff:
  assumes delim: "keys_computable cfg"
    and readable: "\<forall>f \<in> set files. fs (name f) \<noteq> None"
    and comp: "completes_all as_completed"
  shows "h \<in> set (safe_duplicate_hashes (safe_hash_to_file_counts H as_completed fs files cfg))
     \<longleftrightarrow> (\<exists>s \<in> corpus_lines fs files. hash_line H cfg s = h)
          \<and> 1 < total_occurrences H cfg fs files h"
proof -
  let ?tb = "safe_hash_to_file_counts H as_completed fs files cfg"
  note ent = safe_entries [where H = H, OF delim readable comp]
  have "h \<in> set (safe_duplicate_hashes ?tb)
      \<longleftrightarrow> (\<exists>fc. (h, fc) \<in> set ?tb \<and> (1 < length fc \<or> 1 < sum_list (map snd fc)))"
    by (force simp: safe_duplicate_hashes_def)
  also have "\<dots> \<longleftrightarrow> (\<exists>fc. map_of ?tb h = Some fc \<and> (1 < length fc \<or> 1 < sum_list (map snd fc)))"
    using ent(1) by simp
  also have "\<dots> \<longleftrightarrow> (\<exists>fc. map_of ?tb h = Some fc) \<and> 1 < total_occurrences H cfg fs files h"
    using counters_decide(1) [OF ent(2)] by blast
  also have "(\<exists>fc. map_of ?tb h = Some fc) \<longleftrightarrow> (\<exists>s \<in> corpus_lines fs files. hash_line H cfg s = h)"
    using ent(3) [of h] by auto
  finally show ?thesis .
qed

lemma safe_pass2_line_step:
  "keys_computable cfg \<Longrightarrow>
     safe_pass2_line H cfg D r l = Inr (if strip l = [] then r else safe_pass2_step H cfg D r (strip l))"
  by (simp add: safe_pass2_line_def safe_pass2_step_def normalize_line_key_of hash_line_def
      display_prefix_def Let_def)

lemma safe_pass2_step_invariant:
  "distinct (map fst (foldl (safe_pass2_step H cfg D) [] ss)) \<and>
   (\<forall>h. map_of (foldl (safe_pass2_step H cfg D) [] ss) h =
        (if h \<in> D then map_option (display_prefix cfg) (find (\<lambda>s. hash_line H cfg s = h) ss)
         else None))"
proof (induction ss rule: rev_induct)
  case Nil
  then show ?case by simp
next
  case (snoc s ss)
  let ?r = "foldl (safe_pass2_step H cfg D) [] ss"
  let ?h0 = "hash_line H cfg s"
  from snoc have dist: "distinct (map fst ?r)"
    and m: "\<And>h. map_of ?r h =
        (if h \<in> D then map_option (display_prefix cfg) (find (\<lambda>s. hash_line H cfg s = h) ss)
         else None)"
    by simp_all
  show ?case
  proof (cases "?h0 \<in> D \<and> map_of ?r ?h0 = None")
    case True
    with m [of ?h0] have f0: "find (\<lambda>t. hash_line H cfg t = ?h0) ss = None"
      by simp
    have step: "foldl (safe_pass2_step H cfg D) [] (ss @ [s])
        = AList.update ?h0 (display_prefix cfg s) ?r"
      using True by (simp add: safe_pass2_step_def)
    show ?thesis
      unfolding step using dist m f0 True
      by (auto simp: update_conv' distinct_update find_append split: option.splits)
  next
    case False
    have "safe_pass2_step H cfg D ?r s = ?r"
      using False by (simp only: safe_pass2_step_def if_False)
    then have step: "foldl (safe_pass2_step H cfg D) [] (ss @ [s]) = ?r"
      by simp
    show ?thesis
      unfolding step using dist m False
      by (auto simp: find_append split: option.splits)
  qed
qed

lemma process_file_safe_pass2_result:
  assumes "keys_computable cfg" and "fs (name f) \<noteq> None"
  shows "\<exists>r. process_file_safe_pass2 H fs f dups cfg = Inr r \<and> distinct (map fst r)
     \<and> (\<forall>h. map_of r h =
           (if h \<in> set dups
            then map_option (display_prefix cfg) (find (\<lambda>s. hash_line H cfg s = h) (data_lines fs f))
            else None))"
proof (cases "dups = []")
  case True
  then show ?thesis by (simp add: process_file_safe_pass2_def)
next
  case False
  from assms(2) obtain ls where ls: "fs (name f) = Some ls" by auto
  have "process_file_safe_pass2 H fs f dups cfg
      = Inr (foldl (safe_pass2_step H cfg (set dups)) [] (stripped_lines (drop 1 ls)))"
    using ls False for_loop_stripped [of "safe_pass2_line H cfg (set dups)"
        "safe_pass2_step H cfg (set dups)", OF safe_pass2_line_step [OF assms(1)]]
    by (simp add: process_file_safe_pass2_def open_skip_header_def)
  moreover have "data_lines fs f = stripped_lines (drop 1 ls)"
    using ls by (simp add: data_lines_def)
  ultimately show ?thesis
    using safe_pass2_step_invariant [of H cfg "set dups" "stripped_lines (drop 1 ls)"]
    by simp
qed

lemma safe_prefix_map_fold:
  assumes delim: "keys_computable cfg"
  shows "\<forall>f \<in> set fl. fs (name f) \<noteq> None \<Longrightarrow>
     distinct (map fst (foldl (safe_merge_prefixes H fs cfg dups) [] fl))
   \<and> (\<forall>h. (map_of (foldl (safe_merge_prefixes H fs cfg dups) [] fl) h = None
            \<longleftrightarrow> \<not> (h \<in> set dups \<and> (\<exists>f \<in> set fl. \<exists>s \<in> set (data_lines fs f). hash_line H cfg s = h)))
         \<and> (\<forall>p. map_of (foldl (safe_merge_prefixes H fs cfg dups) [] fl) h = Some p \<longrightarrow>
               (\<exists>f \<in> set fl. \<exists>s \<in> set (data_lines fs f).
                  hash_line H cfg s = h \<and> p = display_prefix cfg s)))"
proof (induction fl rule: rev_induct)
  case Nil
  then show ?case by simp
next
  case (snoc f fl)
  let ?m = "foldl (safe_merge_prefixes H fs cfg dups) [] fl"
  from snoc.prems have readable: "fs (name f) \<noteq> None" by simp
  from snoc have dist: "distinct (map fst ?m)"
    and none: "\<And>h. map_of ?m h = None
            \<longleftrightarrow> \<not> (h \<in> set dups \<and> (\<exists>f \<in> set fl. \<exists>s \<in> set (data_lines fs f). hash_line H cfg s = h))"
    and some: "\<And>h p. map_of ?m h = Some p \<Longrightarrow>
               (\<exists>f \<in> set fl. \<exists>s \<in> set (data_lines fs f).
                  hash_line H cfg s = h \<and> p = display_prefix cfg s)"
    by simp_all
  from process_file_safe_pass2_result [where fs = fs and f = f and H = H and dups = dups,
      OF delim readable]
  obtain r where r: "process_file_safe_pass2 H fs f dups cfg = Inr r" and dr: "distinct (map fst r)"
    and mr: "\<And>h. map_of r h =
           (if h \<in> set dups
            then map_option (display_prefix cfg) (find (\<lambda>s. hash_line H cfg s = h) (data_lines fs f))
            else None)"
    by blast
  have step: "foldl (safe_merge_prefixes H fs cfg dups) [] (fl @ [f]) = dict_update ?m r"
    using r by (simp add: safe_merge_prefixes_def)
  have mo: "map_of (dict_update ?m r) = map_of ?m ++ map_of r"
    by (simp add: map_of_dict_update map_of_rev_distinct [OF dr])
  have r_none: "map_of r h = None \<longleftrightarrow> \<not> (h \<in> set dups \<and> (\<exists>s \<in> set (data_lines fs f). hash_line H cfg s = h))" for h
    by (auto simp: mr find_None_iff)
  have r_some: "\<exists>s \<in> set (data_lines fs f). hash_line H cfg s = h \<and> p = display_prefix cfg s"
    if "map_of r h = Some p" for h p
  proof -
    from that mr [of h] obtain s where "find (\<lambda>s. hash_line H cfg s = h) (data_lines fs f) = Some s"
      and "p = display_prefix cfg s"
      by (auto split: if_splits)
    with find_Some_filter [of "\<lambda>s. hash_line H cfg s = h" "data_lines fs f" s]
    show ?thesis by auto
  qed
  have p1: "distinct (map fst (dict_update ?m r))"
    using dist by (rule distinct_dict_update)
  have p2: "map_of (dict_update ?m r) h = None
      \<longleftrightarrow> \<not> (h \<in> set dups \<and> (\<exists>f \<in> set (fl @ [f]). \<exists>s \<in> set (data_lines fs f). hash_line H cfg s = h))" for h
    using none [of h] r_none [of h] by (auto simp: mo)
  have p3: "\<exists>f \<in> set (fl @ [f]). \<exists>s \<in> set (data_lines fs f).
                  hash_line H cfg s = h \<and> p = display_prefix cfg s"
    if "map_of (dict_update ?m r) h = Some p" for h p
  proof (cases "map_of r h")
    case None
    with that have "map_of ?m h = Some p"
      by (simp add: mo map_add_def)
    from some [OF this] show ?thesis by auto
  next
    case (Some p')
    with that have "p' = p"
      by (simp add: mo map_add_def)
    with Some r_some [of h p] show ?thesis by auto
  qed
  from p1 p2 p3 show ?case
    unfolding step by blast
qed

lemma safe_output_step_cond:
  "safe_output_step idm dups tb =
     (\<lambda>out e. if fst e \<in> set dups \<and> reportable (lookup_default [] tb (fst e))
               then AList.update (snd e) (names_for idm (lookup_default [] tb (fst e))) out
               else out)"
proof (intro ext)
  fix out :: "(string, string list) dict" and e :: "string \<times> string"
  obtain h p where e: "e = (h, p)" by (cases e)
  show "safe_output_step idm dups tb out e =
     (if fst e \<in> set dups \<and> reportable (lookup_default [] tb (fst e))
      then AList.update (snd e) (names_for idm (lookup_default [] tb (fst e))) out
      else out)"
  proof (cases "lookup_default [] tb h")
    case Nil
    then show ?thesis
      by (simp add: e safe_output_step_def reportable_def keys_def)
  next
    case (Cons x fc)
    then show ?thesis
      by (simp add: e safe_output_step_def reportable_def names_for_def keys_def Let_def)
  qed
qed

lemma safe_output_reported:
  assumes delim: "keys_computable cfg"
    and readable: "\<forall>f \<in> set files. fs (name f) \<noteq> None"
    and comp1: "completes_all as_completed1"
    and comp2: "completes_all as_completed2"
    and agree: "prefix_tells_hash H cfg fs files"
  shows "distinct (map fst (safe_output_data H as_completed1 as_completed2 fs files (id_to_file_map files) cfg))"
    and "map_of (safe_output_data H as_completed1 as_completed2 fs files (id_to_file_map files) cfg) q = Some w
     \<longleftrightarrow> reported H cfg fs files q w"
proof -
  let ?tb = "safe_hash_to_file_counts H as_completed1 fs files cfg"
  let ?dups = "safe_duplicate_hashes ?tb"
  let ?idm = "id_to_file_map files"
  let ?hpm = "foldl (safe_merge_prefixes H fs cfg ?dups) [] (as_completed2 files)"
  let ?c = "\<lambda>e :: string \<times> string. fst e \<in> set ?dups \<and> reportable (lookup_default [] ?tb (fst e))"
  let ?v = "\<lambda>e :: string \<times> string. names_for ?idm (lookup_default [] ?tb (fst e))"
  let ?out = "foldl (\<lambda>out e. if ?c e then AList.update (snd e) (?v e) out else out) [] ?hpm"
  note ent = safe_entries [where H = H, OF delim readable comp1]
  note dup_iff = safe_duplicate_hashes_iff [where H = H, OF delim readable comp1]
  from comp2 have "mset (as_completed2 files) = mset files"
    by (simp add: completes_all_def)
  then have set2: "set (as_completed2 files) = set files"
    by (rule mset_eq_setD)
  with readable have readable2: "\<forall>f \<in> set (as_completed2 files). fs (name f) \<noteq> None"
    by simp
  note pm = safe_prefix_map_fold [where H = H and dups = ?dups, OF delim readable2]
  have pm_some: "\<exists>s \<in> corpus_lines fs files. hash_line H cfg s = h \<and> p = display_prefix cfg s"
    if "(h, p) \<in> set ?hpm" for h p
  proof -
    from that pm have "map_of ?hpm h = Some p" by simp
    with pm set2 show ?thesis
      unfolding corpus_lines_def by blast
  qed
  have dup_entry: "reportable (lookup_default [] ?tb h)
      \<and> names_for ?idm (lookup_default [] ?tb h)
          = map (\<lambda>i. name (files ! i)) (files_with H cfg fs files h)"
    if "h \<in> set ?dups" for h
  proof -
    from that dup_iff [of h] have inc: "\<exists>s \<in> corpus_lines fs files. hash_line H cfg s = h"
      and tot: "1 < total_occurrences H cfg fs files h"
      by simp_all
    from inc ent(3) [of h] obtain fc where fc: "map_of ?tb h = Some fc"
      by auto
    note rc = reportable_complete [OF ent(2) [OF fc]]
    from fc rc tot show ?thesis
      by (simp add: lookup_default_def)
  qed
  have functional: "?v e = ?v e'"
    if "e \<in> set ?hpm" "e' \<in> set ?hpm" "?c e" "?c e'" "snd e = snd e'" for e e'
  proof -
    from pm_some [of "fst e" "snd e"] that(1) obtain s where s: "s \<in> corpus_lines fs files"
      "hash_line H cfg s = fst e" "snd e = display_prefix cfg s"
      by auto
    from pm_some [of "fst e'" "snd e'"] that(2) obtain s' where s': "s' \<in> corpus_lines fs files"
      "hash_line H cfg s' = fst e'" "snd e' = display_prefix cfg s'"
      by auto
    from agree s s' that(5) have "fst e = fst e'"
      unfolding prefix_tells_hash_def by metis
    then show ?thesis by simp
  qed
  note fu0 = fold_updates_iff [where xs = ?hpm and c = ?c and k = snd and v = ?v, OF functional]
  from fu0 have fu_d: "distinct (map fst ?out)" ..
  from fu0 have fu: "map_of ?out q = Some w \<longleftrightarrow> (\<exists>x \<in> set ?hpm. ?c x \<and> snd x = q \<and> w = ?v x)"
    by blast
  have out: "safe_output_data H as_completed1 as_completed2 fs files ?idm cfg
      = (if ?dups = [] then [] else ?out)"
    by (simp add: safe_output_data_def Let_def safe_output_step_cond)
  show "distinct (map fst (safe_output_data H as_completed1 as_completed2 fs files ?idm cfg))"
  proof (cases "?dups = []")
    case True
    then show ?thesis unfolding out by simp
  next
    case False
    with fu_d show ?thesis unfolding out by simp
  qed
  have main: "map_of ?out q = Some w \<longleftrightarrow> reported H cfg fs files q w"
  proof
    assume "map_of ?out q = Some w"
    with fu obtain e where e: "e \<in> set ?hpm" "?c e" "snd e = q" "w = ?v e"
      by blast
    from pm_some [of "fst e" "snd e"] e(1) obtain s where s: "s \<in> corpus_lines fs files"
      "hash_line H cfg s = fst e" "snd e = display_prefix cfg s"
      by auto
    from e(2) dup_iff [of "fst e"] have "1 < total_occurrences H cfg fs files (fst e)"
      by simp
    with s e dup_entry [of "fst e"] show "reported H cfg fs files q w"
      unfolding reported_def by auto
  next
    assume "reported H cfg fs files q w"
    then obtain s where s: "s \<in> corpus_lines fs files" "display_prefix cfg s = q"
      "1 < total_occurrences H cfg fs files (hash_line H cfg s)"
      "w = map (\<lambda>i. name (files ! i)) (files_with H cfg fs files (hash_line H cfg s))"
      unfolding reported_def by blast
    let ?h = "hash_line H cfg s"
    from s(1,3) dup_iff [of ?h] have hd: "?h \<in> set ?dups"
      by blast
    from s(1) obtain f where "f \<in> set files" "s \<in> set (data_lines fs f)"
      unfolding corpus_lines_def by blast
    with hd pm set2 have "map_of ?hpm ?h \<noteq> None"
      by blast
    then obtain p where p: "map_of ?hpm ?h = Some p"
      by blast
    then have mem: "(?h, p) \<in> set ?hpm"
      by (rule map_of_SomeD)
    from pm_some [OF mem] obtain s' where s': "s' \<in> corpus_lines fs files"
      "hash_line H cfg s' = ?h" "p = display_prefix cfg s'"
      by blast
    from agree s(1) s'(1,2) have "display_prefix cfg s' = display_prefix cfg s"
      unfolding prefix_tells_hash_def by metis
    with s' s(2) have "p = q" by simp
    with mem hd dup_entry [OF hd] s(4)
    have "\<exists>e \<in> set ?hpm. ?c e \<and> snd e = q \<and> w = ?v e"
      by force
    with fu show "map_of ?out q = Some w"
      by blast
  qed
  show "map_of (safe_output_data H as_completed1 as_completed2 fs files ?idm cfg) q = Some w
     \<longleftrightarrow> reported H cfg fs files q w"
  proof (cases "?dups = []")
    case False
    with main show ?thesis unfolding out by simp
  next
    case True
    have "\<not> reported H cfg fs files q w"
    proof
      assume "reported H cfg fs files q w"
      then obtain s where "s \<in> corpus_lines fs files"
        "1 < total_occurrences H cfg fs files (hash_line H cfg s)"
        unfolding reported_def by blast
      with dup_iff [of "hash_line H cfg s"] have "hash_line H cfg s \<in> set ?dups"
        by blast
      with True show False by simp
    qed
    with True show ?thesis unfolding out by simp
  qed
qed

section \<open>The text of the run files\<close>

lemma tab_less_hex: "c \<in> set ''0123456789abcdef'' \<Longrightarrow> tab < c \<and> \<not> isspace c \<and> c \<noteq> tab"
  by (auto simp: tab_def isspace_def less_char_def)

lemma hex_digest_ok_chars:
  assumes "hex_digest_ok h"
  shows "h \<noteq> []" and "\<forall>c \<in> set h. tab < c" and "tab \<notin> set h" and "\<not> isspace (hd h)"
proof -
  from assms show "h \<noteq> []" by (simp add: hex_digest_ok_def)
  from assms have all: "\<forall>c \<in> set h. c \<in> set ''0123456789abcdef''"
    unfolding hex_digest_ok_def by blast
  with tab_less_hex show "\<forall>c \<in> set h. tab < c" by blast
  from all tab_less_hex show "tab \<notin> set h" by blast
  from \<open>h \<noteq> []\<close> have "hd h \<in> set h" by simp
  with all tab_less_hex show "\<not> isspace (hd h)" by blast
qed

lemma find_sep_single:
  "t \<notin> set a \<Longrightarrow> find_sep [t] (a @ t # rest) = Some (a, rest)"
  by (induction a) auto

lemma find_sep_single_none:
  "t \<notin> set a \<Longrightarrow> find_sep [t] a = None"
  by (induction a) auto

lemma split_single:
  "t \<notin> set a \<Longrightarrow> n \<noteq> 0 \<Longrightarrow> split [t] n (a @ t # rest) = a # split [t] (n - 1) rest"
  by (subst split.simps) (simp add: find_sep_single)

lemma split_zero: "split sep 0 s = [s]"
  by (subst split.simps) simp

lemma digit_char_props:
  assumes "d < 10"
  shows "is_digit (digit_char d) \<and> of_char (digit_char d) = 48 + d \<and> digit_char d \<noteq> tab"
proof -
  from assms have v: "(of_char (digit_char d) :: nat) = 48 + d"
    by (simp add: digit_char_def)
  have "digit_char d \<noteq> tab"
  proof
    assume "digit_char d = tab"
    then have "(of_char (digit_char d) :: nat) = of_char tab" by simp
    with v show False by (simp add: tab_def)
  qed
  with v assms show ?thesis
    by (simp add: is_digit_def)
qed

lemma str_nat_digits:
  "str_nat n \<noteq> [] \<and> list_all is_digit (str_nat n) \<and> tab \<notin> set (str_nat n)
     \<and> foldl (\<lambda>acc c. 10 * acc + (of_char c - 48)) 0 (str_nat n) = n"
proof (induction n rule: str_nat.induct)
  case (1 n)
  show ?case
  proof (cases "n < 10")
    case True
    with digit_char_props [of n] show ?thesis
      by (subst (1 2 3 4) str_nat.simps) auto
  next
    case False
    have d: "n mod 10 < 10" by simp
    from False "1.IH" digit_char_props [OF d] show ?thesis
      by (subst (1 2 3 4) str_nat.simps) auto
  qed
qed

lemma int_of_str_str_nat: "int_of_str (str_nat n) = Some n"
  using str_nat_digits [of n] by (simp add: int_of_str_def)

lemma line_key_record_line: "tab \<notin> set h \<Longrightarrow> line_key (record_line (h, i, p)) = h"
  by (simp add: line_key_def record_line_def DISK_MODE_DELIMITER_def split_single split_zero)

lemma isspace_nl: "isspace nl"
  by (simp add: isspace_def nl_def)

lemma strip_record_line:
  assumes "h \<noteq> []" and "\<not> isspace (hd h)" and "p \<noteq> []" and "\<not> isspace (last p)"
  shows "strip (record_line (h, i, p)) = h @ [tab] @ str_nat i @ [tab] @ p"
proof -
  let ?body = "h @ [tab] @ str_nat i @ [tab] @ p"
  have "record_line (h, i, p) = ?body @ [nl]"
    by (simp add: record_line_def DISK_MODE_DELIMITER_def)
  moreover have "dropWhile isspace (?body @ [nl]) = ?body @ [nl]"
    using assms(1,2) by (cases h) auto
  moreover have "rev (?body @ [nl]) = nl # rev p @ rev (h @ [tab] @ str_nat i @ [tab])"
    by simp
  moreover have "dropWhile isspace (rev p @ rev (h @ [tab] @ str_nat i @ [tab]))
      = rev p @ rev (h @ [tab] @ str_nat i @ [tab])"
    using assms(3,4) by (cases p rule: rev_cases) auto
  ultimately show ?thesis
    by (simp add: strip_def isspace_nl)
qed

lemma disk_item_record_line:
  assumes "hex_digest_ok h" and "p \<noteq> []" and "\<not> isspace (last p)"
  shows "disk_item (ids, pfx) (record_line (h, i, p))
           = (List.insert i ids, if pfx = [] then p else pfx)"
proof -
  note hx = hex_digest_ok_chars [OF assms(1)]
  have "split [tab] 2 (strip (record_line (h, i, p))) = [h, str_nat i, p]"
    using hx(3) str_nat_digits [of i]
    by (simp add: strip_record_line [OF hx(1,4) assms(2,3)] split_single split_zero)
  then show ?thesis
    by (simp add: disk_item_def DISK_MODE_DELIMITER_def int_of_str_str_nat)
qed

lemma key_le_of_line_le:
  fixes t :: char
  assumes "\<forall>c \<in> set h. t < c" and "\<forall>c \<in> set h'. t < c"
    and "h @ t # r \<le> h' @ t # r'"
  shows "h \<le> h'"
  using assms
proof (induction h arbitrary: h')
  case Nil
  then show ?case by simp
next
  case (Cons a h)
  show ?case
  proof (cases h')
    case Nil
    with Cons.prems show ?thesis by (auto dest: less_asym)
  next
    case (Cons b hs)
    with Cons.prems Cons.IH [of hs] show ?thesis
      by auto
  qed
qed

section \<open>The DISK engine: sorted runs\<close>

lemma disk_line_step:
  "keys_computable cfg \<Longrightarrow>
     disk_line H cfg i acc l = Inr (if strip l = [] then acc else disk_step H cfg i acc (strip l))"
  by (simp add: disk_line_def disk_step_def normalize_line_key_of hash_line_def display_prefix_def
      Let_def)

lemma foldl_disk_step:
  "foldl (disk_step H cfg i) acc ss = acc @ file_records H cfg i ss"
  by (induction ss arbitrary: acc) (simp_all add: file_records_def disk_step_def)

lemma disk_chunk_result:
  assumes "keys_computable cfg"
  shows "disk_chunk H cfg i chunk_lines
           = Inr (map record_line (sort_key fst (file_records H cfg i (stripped_lines chunk_lines))))"
  using for_loop_stripped [of "disk_line H cfg i" "disk_step H cfg i", OF disk_line_step [OF assms]]
  by (simp add: disk_chunk_def foldl_disk_step)

lemma until_error_all:
  "(\<And>x. f x = Inr (g x)) \<Longrightarrow> until_error f xs = map g xs"
  by (induction xs) simp_all

lemma readlines_append: "readlines hint ls = (c, r) \<Longrightarrow> c @ r = ls"
  by (auto simp: readlines_def dest: readlines_from_append split: if_splits)

lemma readlines_empty: "readlines hint ls = ([], r) \<Longrightarrow> ls = []"
  by (auto simp: readlines_def dest: readlines_from_nonempty split: if_splits)

lemma concat_read_chunks: "concat (read_chunks hint ls) = ls"
proof (induction hint ls rule: read_chunks.induct)
  case (1 hint ls)
  obtain c r where cr: "readlines hint ls = (c, r)"
    by (cases "readlines hint ls")
  show ?case
  proof (cases "c = []")
    case True
    with cr readlines_empty [of hint ls r] show ?thesis
      by (subst read_chunks.simps) simp
  next
    case False
    from "1.IH" [OF cr [symmetric] False] have "concat (read_chunks hint r) = r" .
    with cr False readlines_append [OF cr] show ?thesis
      by (subst read_chunks.simps) simp
  qed
qed

lemma stripped_lines_concat:
  "stripped_lines (concat cs) = concat (map stripped_lines cs)"
  by (induction cs) (simp_all add: stripped_lines_def)

lemma file_records_append:
  "file_records H cfg i (xs @ ys) = file_records H cfg i xs @ file_records H cfg i ys"
  by (simp add: file_records_def)

lemma file_records_concat:
  "file_records H cfg i (concat xss) = concat (map (file_records H cfg i) xss)"
  by (induction xss) (simp_all add: file_records_append, simp add: file_records_def)

lemma mset_concat_cong:
  "(\<And>x. x \<in> set xs \<Longrightarrow> mset (g x) = mset (g' x))
     \<Longrightarrow> mset (concat (map g xs)) = mset (concat (map g' xs))"
  by (induction xs) simp_all

lemma file_records_hash:
  "r \<in> set (file_records H cfg i ss) \<Longrightarrow> \<exists>s \<in> set ss. fst r = hash_line H cfg s"
  by (auto simp: file_records_def)

lemma process_and_sort_chunk_disk_result:
  assumes delim: "keys_computable cfg" and readable: "fs (name f) \<noteq> None"
    and hex: "\<forall>s \<in> set (data_lines fs f). hex_digest_ok (hash_line H cfg s)"
  shows "mset (concat (process_and_sort_chunk_disk H fs (i, f) cfg))
           = mset (map record_line (file_records H cfg i (data_lines fs f)))"
    and "\<forall>run \<in> set (process_and_sort_chunk_disk H fs (i, f) cfg). sorted (map line_key run)"
proof -
  from readable obtain ls where ls: "fs (name f) = Some ls" by auto
  let ?hint = "DISK_CHUNK_SIZE_MB * 1024 * 1024"
  let ?chunks = "read_chunks ?hint (drop 1 ls)"
  let ?g = "\<lambda>chunk. map record_line (sort_key fst (file_records H cfg i (stripped_lines chunk)))"
  let ?g' = "\<lambda>chunk. map record_line (file_records H cfg i (stripped_lines chunk))"
  have dl: "data_lines fs f = stripped_lines (drop 1 ls)"
    using ls by (simp add: data_lines_def)
  have runs: "process_and_sort_chunk_disk H fs (i, f) cfg = map ?g ?chunks"
    using ls until_error_all [of "disk_chunk H cfg i" ?g ?chunks, OF disk_chunk_result [OF delim]]
    by (simp add: process_and_sort_chunk_disk_def open_skip_header_def)
  have "mset (concat (map ?g ?chunks)) = mset (concat (map ?g' ?chunks))"
    by (rule mset_concat_cong) simp
  also have "concat (map ?g' ?chunks)
      = map record_line (file_records H cfg i (stripped_lines (concat ?chunks)))"
    by (simp add: stripped_lines_concat file_records_concat map_concat comp_def)
  also have "concat ?chunks = drop 1 ls"
    by (rule concat_read_chunks)
  finally show "mset (concat (process_and_sort_chunk_disk H fs (i, f) cfg))
           = mset (map record_line (file_records H cfg i (data_lines fs f)))"
    by (simp only: runs dl)
  show "\<forall>run \<in> set (process_and_sort_chunk_disk H fs (i, f) cfg). sorted (map line_key run)"
  proof
    fix run assume "run \<in> set (process_and_sort_chunk_disk H fs (i, f) cfg)"
    then obtain chunk where chunk: "chunk \<in> set ?chunks" and run: "run = ?g chunk"
      unfolding runs by auto
    let ?R = "file_records H cfg i (stripped_lines chunk)"
    have sub: "set (stripped_lines chunk) \<subseteq> set (data_lines fs f)"
    proof -
      from chunk have "set chunk \<subseteq> set (concat ?chunks)" by auto
      then have "set chunk \<subseteq> set (drop 1 ls)"
        by (simp only: concat_read_chunks)
      then show ?thesis
        unfolding dl stripped_lines_def by auto
    qed
    have "line_key (record_line r) = fst r" if "r \<in> set (sort_key fst ?R)" for r
    proof -
      from that have "r \<in> set ?R" by simp
      from file_records_hash [OF this] sub hex have "hex_digest_ok (fst r)"
        by auto
      from hex_digest_ok_chars(3) [OF this] show ?thesis
        using line_key_record_line [of "fst r" "fst (snd r)" "snd (snd r)"] by simp
    qed
    then have "map line_key (map record_line (sort_key fst ?R)) = map fst (sort_key fst ?R)"
      by simp
    then show "sorted (map line_key run)"
      unfolding run by (simp only: sorted_sort_key)
  qed
qed

section \<open>The DISK engine: merging\<close>

lemma mset_merge2: "mset (merge2 xs ys) = mset xs + mset ys"
  by (induction xs ys rule: merge2.induct) simp_all

lemma set_merge2: "set (merge2 xs ys) = set xs \<union> set ys"
  using mset_merge2 [of xs ys, THEN arg_cong, of set_mset] by simp

lemma sorted_merge2:
  fixes key :: "string \<Rightarrow> 'k :: linorder"
  assumes "\<And>x y. x \<in> W \<Longrightarrow> y \<in> W \<Longrightarrow> x \<le> y \<Longrightarrow> key x \<le> key y"
  shows "set xs \<subseteq> W \<Longrightarrow> set ys \<subseteq> W \<Longrightarrow> sorted (map key xs) \<Longrightarrow> sorted (map key ys)
     \<Longrightarrow> sorted (map key (merge2 xs ys))"
proof (induction xs ys rule: merge2.induct)
  case (1 ys)
  then show ?case by simp
next
  case (2 v va)
  then show ?case by simp
next
  case (3 x xs y ys)
  show ?case
  proof (cases "x \<le> y")
    case True
    with 3 have IH: "sorted (map key (merge2 xs (y # ys)))"
      by simp
    from True 3 assms [of x y] have xy: "key x \<le> key y" by simp
    have "key x \<le> key z" if "z \<in> set (merge2 xs (y # ys))" for z
      using that 3(5,6) xy by (auto simp: set_merge2)
    with IH True show ?thesis by simp
  next
    case False
    with 3 have IH: "sorted (map key (merge2 (x # xs) ys))"
      by simp
    from False have "y \<le> x" by simp
    with 3 assms [of y x] have yx: "key y \<le> key x" by simp
    have "key y \<le> key z" if "z \<in> set (merge2 (x # xs) ys)" for z
      using that 3(5,6) yx by (auto simp: set_merge2)
    with IH False show ?thesis by simp
  qed
qed

lemma mset_heapq_merge: "mset (heapq_merge streams) = mset (concat streams)"
  by (induction streams) (simp_all add: heapq_merge_def mset_merge2)

lemma sorted_heapq_merge:
  fixes key :: "string \<Rightarrow> 'k :: linorder"
  assumes "\<And>x y. x \<in> W \<Longrightarrow> y \<in> W \<Longrightarrow> x \<le> y \<Longrightarrow> key x \<le> key y"
  shows "set (concat streams) \<subseteq> W \<Longrightarrow> \<forall>run \<in> set streams. sorted (map key run)
     \<Longrightarrow> sorted (map key (heapq_merge streams))"
proof (induction streams)
  case Nil
  then show ?case by (simp add: heapq_merge_def)
next
  case (Cons s streams)
  then have IH: "sorted (map key (heapq_merge streams))"
    by simp
  have sub: "set (heapq_merge streams) \<subseteq> W"
    using Cons.prems(1) mset_heapq_merge [of streams, THEN arg_cong, of set_mset] by simp
  have "heapq_merge (s # streams) = merge2 s (heapq_merge streams)"
    by (simp add: heapq_merge_def)
  with Cons.prems IH sub sorted_merge2 [of W key s "heapq_merge streams", OF assms]
  show ?case by simp
qed

lemma mset_concat_heapq_merge:
  "mset (concat (map heapq_merge bs)) = mset (concat (concat bs))"
  by (induction bs) (simp_all add: mset_heapq_merge)

lemma concat_batches: "0 < n \<Longrightarrow> concat (batches n xs) = xs"
proof (induction n xs rule: batches.induct)
  case (1 n xs)
  then show ?case
    by (subst batches.simps) auto
qed

lemma length_batches_le: "0 < n \<Longrightarrow> length (batches n xs) \<le> length xs"
proof (induction n xs rule: batches.induct)
  case (1 n xs)
  show ?case
  proof (cases "xs = []")
    case True
    then show ?thesis by (subst batches.simps) simp
  next
    case False
    with 1 have "length (batches n (drop n xs)) \<le> length xs - n"
      by simp
    with False "1.prems" show ?thesis
      by (subst batches.simps) (cases xs, auto)
  qed
qed

lemma length_batches_less:
  assumes "2 \<le> n" and "2 \<le> length xs"
  shows "length (batches n xs) < length xs" and "batches n xs \<noteq> []"
proof -
  from assms have ne: "xs \<noteq> []" and pos: "0 < n" by auto
  have "length (batches n (drop n xs)) \<le> length xs - n"
    using length_batches_le [OF pos, of "drop n xs"] by simp
  with assms ne show "length (batches n xs) < length xs"
    by (subst batches.simps) auto
  from ne pos show "batches n xs \<noteq> []"
    by (subst batches.simps) auto
qed

lemma cascade_result:
  fixes key :: "string \<Rightarrow> 'k :: linorder"
  assumes mono: "\<And>x y. x \<in> W \<Longrightarrow> y \<in> W \<Longrightarrow> x \<le> y \<Longrightarrow> key x \<le> key y"
    and mbs: "2 \<le> batch_size"
  shows "set (concat temp_files) \<subseteq> W \<Longrightarrow> \<forall>run \<in> set temp_files. sorted (map key run)
     \<Longrightarrow> \<exists>merged. cascade batch_size temp_files = Some (Inr merged) \<and> length merged \<le> 1
           \<and> (merged = [] \<longleftrightarrow> temp_files = [])
           \<and> mset (concat merged) = mset (concat temp_files)
           \<and> (\<forall>run \<in> set merged. sorted (map key run))"
proof (induction "length temp_files" arbitrary: temp_files rule: less_induct)
  case less
  show ?case
  proof (cases "1 < length temp_files")
    case False
    then show ?thesis
      using less.prems by (subst cascade.simps) auto
  next
    case True
    let ?next = "map heapq_merge (batches (nat batch_size) temp_files)"
    from mbs have n: "2 \<le> nat batch_size" "0 < nat batch_size" by simp_all
    from True have len: "2 \<le> length temp_files" by simp
    have level: "merge_level batch_size temp_files = Inr ?next"
      using mbs by (simp add: merge_level_def)
    have shorter: "length ?next < length temp_files" and ne: "?next \<noteq> []"
      using length_batches_less [OF n(1) len] by simp_all
    have "mset (concat ?next) = mset (concat (concat (batches (nat batch_size) temp_files)))"
      by (rule mset_concat_heapq_merge)
    then have ms: "mset (concat ?next) = mset (concat temp_files)"
      by (simp only: concat_batches [OF n(2)])
    then have "set (concat ?next) = set (concat temp_files)"
      by (rule mset_eq_setD)
    with less.prems have sub: "set (concat ?next) \<subseteq> W" by simp
    have srt: "\<forall>run \<in> set ?next. sorted (map key run)"
    proof
      fix run assume "run \<in> set ?next"
      then obtain b where b: "b \<in> set (batches (nat batch_size) temp_files)"
        and run: "run = heapq_merge b"
        by auto
      from b have "set b \<subseteq> set (concat (batches (nat batch_size) temp_files))"
        by auto
      then have bsub: "set b \<subseteq> set temp_files"
        by (simp only: concat_batches [OF n(2)])
      with less.prems have "set (concat b) \<subseteq> W" and "\<forall>r \<in> set b. sorted (map key r)"
        by auto
      moreover have "\<And>x y. x \<in> W \<Longrightarrow> y \<in> W \<Longrightarrow> x \<le> y \<Longrightarrow> key x \<le> key y"
        by (rule mono)
      ultimately show "sorted (map key run)"
        unfolding run using sorted_heapq_merge [of W key b] by blast
    qed
    from less.hyps [OF shorter sub srt] obtain merged
      where m: "cascade batch_size ?next = Some (Inr merged)" "length merged \<le> 1"
        "merged = [] \<longleftrightarrow> ?next = []" "mset (concat merged) = mset (concat ?next)"
        "\<forall>run \<in> set merged. sorted (map key run)"
      by blast
    have "cascade batch_size temp_files = cascade batch_size ?next"
      using True level by (subst cascade.simps) simp
    with m ms ne True show ?thesis
      by auto
  qed
qed

section \<open>The DISK engine: grouping\<close>

lemma sorted_takeWhile_filter:
  fixes key :: "'a \<Rightarrow> 'k :: linorder"
  shows "sorted (map key xs) \<Longrightarrow> \<forall>y \<in> set xs. k \<le> key y
     \<Longrightarrow> takeWhile (\<lambda>y. key y = k) xs = filter (\<lambda>y. key y = k) xs
       \<and> (\<forall>y \<in> set (dropWhile (\<lambda>y. key y = k) xs). k < key y)"
proof (induction xs)
  case Nil
  then show ?case by simp
next
  case (Cons x xs)
  show ?case
  proof (cases "key x = k")
    case True
    with Cons show ?thesis by simp
  next
    case False
    with Cons.prems have lt: "k < key x" by auto
    with Cons.prems have all: "\<forall>y \<in> set xs. k < key y"
      by (auto simp: less_le_trans)
    then have "filter (\<lambda>y. key y = k) xs = []"
      by (auto simp: filter_empty_conv)
    with False lt all show ?thesis by simp
  qed
qed

lemma groupby_sorted:
  fixes key :: "'a \<Rightarrow> 'k :: linorder"
  shows "sorted (map key xs) \<Longrightarrow>
     g \<in> set (groupby key xs) \<longleftrightarrow> (\<exists>x \<in> set xs. g = (key x, filter (\<lambda>y. key y = key x) xs))"
proof (induction key xs rule: groupby.induct)
  case (1 key)
  then show ?case by simp
next
  case (2 key x xs)
  let ?rest = "dropWhile (\<lambda>y. key y = key x) xs"
  from "2.prems" have sx: "sorted (map key xs)" and ge: "\<forall>y \<in> set xs. key x \<le> key y"
    by simp_all
  note tf = sorted_takeWhile_filter [OF sx ge]
  from tf have tw: "takeWhile (\<lambda>y. key y = key x) xs = filter (\<lambda>y. key y = key x) xs"
    and later: "\<forall>y \<in> set ?rest. key x < key y"
    by blast+
  have srest: "sorted (map key ?rest)"
    using sx by (simp add: sorted_wrt_map sorted_wrt_dropWhile)
  have split_xs: "xs = filter (\<lambda>y. key y = key x) xs @ ?rest"
    using takeWhile_dropWhile_id [of "\<lambda>y. key y = key x" xs] tw by simp
  have in_rest: "y \<in> set ?rest \<longleftrightarrow> y \<in> set xs \<and> key y \<noteq> key x" for y
  proof
    assume "y \<in> set ?rest"
    with later set_dropWhileD [of y "\<lambda>y. key y = key x" xs] show "y \<in> set xs \<and> key y \<noteq> key x"
      by auto
  next
    assume a: "y \<in> set xs \<and> key y \<noteq> key x"
    then have "y \<in> set (filter (\<lambda>y. key y = key x) xs @ ?rest)"
      using split_xs by simp
    with a show "y \<in> set ?rest" by simp
  qed
  have filt: "filter (\<lambda>z. key z = key y) (x # xs) = filter (\<lambda>z. key z = key y) ?rest"
    if "key y \<noteq> key x" for y
  proof -
    have "filter (\<lambda>z. key z = key y) xs
        = filter (\<lambda>z. key z = key y) (filter (\<lambda>y. key y = key x) xs @ ?rest)"
      using split_xs by simp
    also have "\<dots> = filter (\<lambda>z. key z = key y) ?rest"
      using that by (auto simp: filter_empty_conv)
    finally show ?thesis using that by simp
  qed
  have IH: "g \<in> set (groupby key ?rest)
      \<longleftrightarrow> (\<exists>y \<in> set ?rest. g = (key y, filter (\<lambda>z. key z = key y) ?rest))"
    by (rule "2.IH" [OF srest])
  show ?case
  proof
    assume "g \<in> set (groupby key (x # xs))"
    then consider "g = (key x, x # filter (\<lambda>y. key y = key x) xs)" | "g \<in> set (groupby key ?rest)"
      by (auto simp: tw)
    then show "\<exists>y \<in> set (x # xs). g = (key y, filter (\<lambda>z. key z = key y) (x # xs))"
    proof cases
      case 1
      then show ?thesis by auto
    next
      case 2
      with IH obtain y where y: "y \<in> set ?rest" "g = (key y, filter (\<lambda>z. key z = key y) ?rest)"
        by blast
      with in_rest [of y] filt [of y] show ?thesis by auto
    qed
  next
    assume "\<exists>y \<in> set (x # xs). g = (key y, filter (\<lambda>z. key z = key y) (x # xs))"
    then obtain y where y: "y \<in> set (x # xs)" "g = (key y, filter (\<lambda>z. key z = key y) (x # xs))"
      by blast
    show "g \<in> set (groupby key (x # xs))"
    proof (cases "key y = key x")
      case True
      with y show ?thesis by (simp add: tw)
    next
      case False
      with y in_rest [of y] filt [of y] have "y \<in> set ?rest"
        "g = (key y, filter (\<lambda>z. key z = key y) ?rest)"
        by auto
      with IH show ?thesis by auto
    qed
  qed
qed

section \<open>The DISK engine: what it reports\<close>

lemma replace_tab_id: "tab \<notin> set p \<Longrightarrow> replace_tab p = p"
  unfolding replace_tab_def by (induction p) auto

lemma file_records_lossless:
  "\<forall>s \<in> set ss. key_of cfg s \<noteq> [] \<and> tab \<notin> set (display_prefix cfg s)
     \<Longrightarrow> file_records H cfg i ss = map (\<lambda>s. (hash_line H cfg s, i, display_prefix cfg s)) ss"
  unfolding file_records_def by (induction ss) (simp_all add: replace_tab_id)

lemma mset_concat_map_perm:
  assumes "mset xs = mset ys"
  shows "mset (concat (map g xs)) = mset (concat (map g ys))"
proof -
  have "mset (concat (map g zs)) = sum_mset (image_mset (\<lambda>x. mset (g x)) (mset zs))" for zs
    by (induction zs) simp_all
  with assms show ?thesis by simp
qed

lemma length_filter_perm:
  assumes "mset xs = mset ys"
  shows "length (filter P xs) = length (filter P ys)"
proof -
  have "size (mset (filter P xs)) = size (mset (filter P ys))"
    using assms by (simp only: mset_filter)
  then show ?thesis by (simp only: size_mset)
qed

lemma disk_runs:
  assumes delim: "keys_computable cfg"
  shows "\<forall>t \<in> set ts. fs (name (snd t)) \<noteq> None
           \<and> (\<forall>s \<in> set (data_lines fs (snd t)). hex_digest_ok (hash_line H cfg s))
     \<Longrightarrow> mset (concat (concat (map (\<lambda>task. process_and_sort_chunk_disk H fs task cfg) ts)))
           = mset (map record_line (corpus_records H cfg fs ts))
       \<and> (\<forall>run \<in> set (concat (map (\<lambda>task. process_and_sort_chunk_disk H fs task cfg) ts)).
            sorted (map line_key run))"
proof (induction ts)
  case Nil
  then show ?case by (simp add: corpus_records_def)
next
  case (Cons t ts)
  obtain i f where t: "t = (i, f)" by (cases t)
  from Cons.prems t have r: "fs (name f) \<noteq> None"
    and h: "\<forall>s \<in> set (data_lines fs f). hex_digest_ok (hash_line H cfg s)"
    by simp_all
  note w = process_and_sort_chunk_disk_result [OF delim r h, of i]
  from Cons have IH: "mset (concat (concat (map (\<lambda>task. process_and_sort_chunk_disk H fs task cfg) ts)))
           = mset (map record_line (corpus_records H cfg fs ts))"
    "\<forall>run \<in> set (concat (map (\<lambda>task. process_and_sort_chunk_disk H fs task cfg) ts)).
            sorted (map line_key run)"
    by simp_all
  have "corpus_records H cfg fs (t # ts)
      = file_records H cfg i (data_lines fs f) @ corpus_records H cfg fs ts"
    by (simp add: corpus_records_def t)
  with w IH show ?case
    by (auto simp: t)
qed

lemma record_line_mono:
  assumes "x \<in> record_line ` {r. hex_digest_ok (fst r)}"
    and "y \<in> record_line ` {r. hex_digest_ok (fst r)}" and "x \<le> y"
  shows "line_key x \<le> line_key y"
proof -
  from assms(1) obtain h i p where x: "x = record_line (h, i, p)" and hx: "hex_digest_ok h"
    by auto
  from assms(2) obtain h' i' p' where y: "y = record_line (h', i', p')" and hy: "hex_digest_ok h'"
    by auto
  have "h @ tab # (str_nat i @ [tab] @ p @ [nl]) \<le> h' @ tab # (str_nat i' @ [tab] @ p' @ [nl])"
    using assms(3) by (simp add: x y record_line_def DISK_MODE_DELIMITER_def)
  then have "h \<le> h'"
    by (rule key_le_of_line_le [OF hex_digest_ok_chars(2) [OF hx] hex_digest_ok_chars(2) [OF hy]])
  then show ?thesis
    by (simp add: x y line_key_record_line hex_digest_ok_chars(3) [OF hx]
        hex_digest_ok_chars(3) [OF hy])
qed

lemma record_line_inject:
  assumes "hex_digest_ok h" and "p \<noteq> []" and "\<not> isspace (last p)"
    and "hex_digest_ok h'" and "p' \<noteq> []" and "\<not> isspace (last p')"
    and eq: "record_line (h, i, p) = record_line (h', i', p')"
  shows "h = h' \<and> i = i' \<and> p = p'"
proof -
  have "line_key (record_line (h, i, p)) = line_key (record_line (h', i', p'))"
    by (simp only: eq)
  then have "h = h'"
    by (simp add: line_key_record_line hex_digest_ok_chars(3) [OF assms(1)]
        hex_digest_ok_chars(3) [OF assms(4)])
  moreover have "disk_item ([], []) (record_line (h, i, p))
      = disk_item ([], []) (record_line (h', i', p'))"
    by (simp only: eq)
  then have "i = i' \<and> p = p'"
    by (simp add: disk_item_record_line [OF assms(1-3)] disk_item_record_line [OF assms(4-6)])
  ultimately show ?thesis by simp
qed

lemma foldl_disk_item:
  assumes hx: "hex_digest_ok h" and q: "q \<noteq> []" "\<not> isspace (last q)"
  shows "\<forall>x \<in> set items. \<exists>i. x = record_line (h, i, q) \<Longrightarrow> distinct ids \<Longrightarrow>
     \<exists>ids'. foldl disk_item (ids, pfx) items
               = (ids', if items = [] \<or> pfx \<noteq> [] then pfx else q)
           \<and> distinct ids' \<and> set ids' = set ids \<union> {i. record_line (h, i, q) \<in> set items}"
proof (induction items arbitrary: ids pfx)
  case Nil
  then show ?case by simp
next
  case (Cons x items)
  from Cons.prems obtain i where x: "x = record_line (h, i, q)"
    by auto
  have same: "record_line (h, j, q) = x \<longleftrightarrow> j = i" for j
    using record_line_inject [OF hx q hx q, of j i] by (auto simp: x)
  have step: "disk_item (ids, pfx) x = (List.insert i ids, if pfx = [] then q else pfx)"
    unfolding x by (rule disk_item_record_line [OF hx q])
  from Cons.prems have rest: "\<forall>x \<in> set items. \<exists>i. x = record_line (h, i, q)"
    and d: "distinct (List.insert i ids)"
    by simp_all
  from Cons.IH [OF rest d, of "if pfx = [] then q else pfx"] obtain ids'
    where r: "foldl disk_item (List.insert i ids, if pfx = [] then q else pfx) items
               = (ids', if pfx = [] then q else pfx)"
      and d': "distinct ids'"
      and s: "set ids' = set (List.insert i ids) \<union> {i. record_line (h, i, q) \<in> set items}"
    using q(1) by (auto split: if_splits)
  have "foldl disk_item (ids, pfx) (x # items) = (ids', if pfx \<noteq> [] then pfx else q)"
    using r step by simp
  moreover have "set ids' = set ids \<union> {j. record_line (h, j, q) \<in> set (x # items)}"
    using s same by auto
  ultimately show ?case
    using d' by simp
qed

lemma corpus_records_set:
  assumes ok: "disk_lossless H cfg fs files"
  shows "r \<in> set (corpus_records H cfg fs (enumerate_files files))
     \<longleftrightarrow> (\<exists>i < length files. \<exists>s \<in> set (data_lines fs (files ! i)).
            r = (hash_line H cfg s, i, display_prefix cfg s))"
proof -
  have fr: "file_records H cfg i (data_lines fs (files ! i))
      = map (\<lambda>s. (hash_line H cfg s, i, display_prefix cfg s)) (data_lines fs (files ! i))"
    if "i < length files" for i
  proof (rule file_records_lossless, rule ballI)
    fix s assume "s \<in> set (data_lines fs (files ! i))"
    with that have "s \<in> corpus_lines fs files"
      by (auto simp: corpus_lines_def)
    with ok show "key_of cfg s \<noteq> [] \<and> tab \<notin> set (display_prefix cfg s)"
      by (simp add: disk_lossless_def)
  qed
  have "r \<in> set (corpus_records H cfg fs (enumerate_files files))
      \<longleftrightarrow> (\<exists>t \<in> set (enumerate_files files). r \<in> set (file_records H cfg (fst t) (data_lines fs (snd t))))"
    by (simp add: corpus_records_def)
  also have "\<dots> \<longleftrightarrow> (\<exists>i < length files. r \<in> set (file_records H cfg i (data_lines fs (files ! i))))"
  proof
    assume "\<exists>t \<in> set (enumerate_files files). r \<in> set (file_records H cfg (fst t) (data_lines fs (snd t)))"
    then obtain i f where "(i, f) \<in> set (enumerate_files files)"
      and "r \<in> set (file_records H cfg i (data_lines fs f))"
      by auto
    then show "\<exists>i < length files. r \<in> set (file_records H cfg i (data_lines fs (files ! i)))"
      by (auto simp: in_enumerate_files)
  next
    assume "\<exists>i < length files. r \<in> set (file_records H cfg i (data_lines fs (files ! i)))"
    then obtain i where i: "i < length files"
      and r: "r \<in> set (file_records H cfg i (data_lines fs (files ! i)))"
      by blast
    from i have "(i, files ! i) \<in> set (enumerate_files files)"
      by (simp add: in_enumerate_files)
    with r show "\<exists>t \<in> set (enumerate_files files). r \<in> set (file_records H cfg (fst t) (data_lines fs (snd t)))"
      by force
  qed
  also have "\<dots> \<longleftrightarrow> (\<exists>i < length files. \<exists>s \<in> set (data_lines fs (files ! i)).
            r = (hash_line H cfg s, i, display_prefix cfg s))"
  proof -
    have "r \<in> set (file_records H cfg i (data_lines fs (files ! i)))
        \<longleftrightarrow> (\<exists>s \<in> set (data_lines fs (files ! i)). r = (hash_line H cfg s, i, display_prefix cfg s))"
      if "i < length files" for i
      unfolding fr [OF that] by auto
    then show ?thesis by blast
  qed
  finally show ?thesis .
qed

lemma corpus_records_count:
  "\<forall>t \<in> set ts. \<forall>s \<in> set (data_lines fs (snd t)). key_of cfg s \<noteq> []
     \<Longrightarrow> length (filter (\<lambda>r. fst r = h) (corpus_records H cfg fs ts))
       = sum_list (map (\<lambda>t. occurrences H cfg fs (snd t) h) ts)"
proof (induction ts)
  case Nil
  then show ?case by (simp add: corpus_records_def)
next
  case (Cons t ts)
  have keep: "filter (\<lambda>s. key_of cfg s \<noteq> []) (data_lines fs (snd t)) = data_lines fs (snd t)"
    using Cons.prems by simp
  have "length (filter (\<lambda>r. fst r = h) (file_records H cfg (fst t) (data_lines fs (snd t))))
      = occurrences H cfg fs (snd t) h"
    unfolding file_records_def keep occurrences_def by (simp add: filter_map o_def)
  moreover have "corpus_records H cfg fs (t # ts)
      = file_records H cfg (fst t) (data_lines fs (snd t)) @ corpus_records H cfg fs ts"
    by (simp add: corpus_records_def)
  ultimately show ?case
    using Cons by simp
qed

lemma corpus_records_total:
  assumes ok: "disk_lossless H cfg fs files"
  shows "length (filter (\<lambda>r. fst r = h) (corpus_records H cfg fs (enumerate_files files)))
     = total_occurrences H cfg fs files h"
proof -
  have "\<forall>t \<in> set (enumerate_files files). \<forall>s \<in> set (data_lines fs (snd t)). key_of cfg s \<noteq> []"
  proof (intro ballI)
    fix t s assume t: "t \<in> set (enumerate_files files)" and s: "s \<in> set (data_lines fs (snd t))"
    from t have "snd t \<in> set files" by (rule enumerate_files_snd)
    with s have "s \<in> corpus_lines fs files"
      by (auto simp: corpus_lines_def)
    with ok show "key_of cfg s \<noteq> []"
      by (simp add: disk_lossless_def)
  qed
  then have "length (filter (\<lambda>r. fst r = h) (corpus_records H cfg fs (enumerate_files files)))
      = sum_list (map (\<lambda>t. occurrences H cfg fs (snd t) h) (enumerate_files files))"
    by (rule corpus_records_count)
  also have "map (\<lambda>t. occurrences H cfg fs (snd t) h) (enumerate_files files)
      = map (\<lambda>f. occurrences H cfg fs f h) (map snd (enumerate_files files))"
    by simp
  also have "map snd (enumerate_files files) = files"
    by (simp add: enumerate_files_def)
  finally show ?thesis
    by (simp add: total_occurrences_def)
qed

lemma sorted_files_with: "sorted (files_with H cfg fs files h) \<and> distinct (files_with H cfg fs files h)"
  by (simp add: files_with_def sorted_wrt_filter)

lemma in_files_with:
  "i \<in> set (files_with H cfg fs files h)
     \<longleftrightarrow> i < length files \<and> (\<exists>s \<in> set (data_lines fs (files ! i)). hash_line H cfg s = h)"
  by (auto simp: files_with_def occurrences_pos_iff)

lemma disk_group_cond:
  "disk_group id_map out g =
     (if 1 < length (snd g) \<and> snd (foldl disk_item ([], []) (snd g)) \<noteq> []
      then AList.update (snd (foldl disk_item ([], []) (snd g)))
             (map (file_name_of id_map) (sort (fst (foldl disk_item ([], []) (snd g))))) out
      else out)"
  by (simp add: disk_group_def Let_def split: prod.splits)

lemma disk_output_reported:
  assumes delim: "keys_computable cfg"
    and readable: "\<forall>f \<in> set files. fs (name f) \<noteq> None"
    and comp: "completes_all as_completed"
    and agree: "prefix_tells_hash H cfg fs files"
    and ok: "disk_lossless H cfg fs files"
    and mbs: "2 \<le> merge_batch_size cfg"
  shows "\<exists>out. disk_output_data H as_completed fs files (id_to_file_map files) cfg = Some (Inr out)
           \<and> distinct (map fst out)
           \<and> (\<forall>q w. map_of out q = Some w \<longleftrightarrow> reported H cfg fs files q w)"
proof -
  let ?tasks = "enumerate_files files"
  let ?ts = "as_completed ?tasks"
  let ?runs = "concat (map (\<lambda>task. process_and_sort_chunk_disk H fs task cfg) ?ts)"
  let ?recs = "corpus_records H cfg fs ?tasks"
  let ?W = "record_line ` {r. hex_digest_ok (fst r)}"
  let ?idm = "id_to_file_map files"
  note lossless = ok [unfolded disk_lossless_def, rule_format]
  have task_lines: "s \<in> corpus_lines fs files"
    if "t \<in> set ?tasks" and "s \<in> set (data_lines fs (snd t))" for t s
  proof -
    from that(1) have "snd t \<in> set files" by (rule enumerate_files_snd)
    with that(2) show ?thesis by (auto simp: corpus_lines_def)
  qed
  have file_lines: "s \<in> corpus_lines fs files"
    if "i < length files" and "s \<in> set (data_lines fs (files ! i))" for i s
    using that by (auto simp: corpus_lines_def)
  have ts_set: "set ?ts = set ?tasks"
    by (rule completed_tasks(2) [OF comp])
  have ts_ok: "\<forall>t \<in> set ?ts. fs (name (snd t)) \<noteq> None
      \<and> (\<forall>s \<in> set (data_lines fs (snd t)). hex_digest_ok (hash_line H cfg s))"
  proof (intro ballI conjI)
    fix t assume "t \<in> set ?ts"
    then have t: "t \<in> set ?tasks" by (simp only: ts_set)
    then have "snd t \<in> set files" by (rule enumerate_files_snd)
    with readable show "fs (name (snd t)) \<noteq> None" by blast
    fix s assume "s \<in> set (data_lines fs (snd t))"
    with t have "s \<in> corpus_lines fs files" by (rule task_lines)
    then show "hex_digest_ok (hash_line H cfg s)" by (simp add: lossless)
  qed
  have "mset ?ts = mset ?tasks"
    using comp by (simp add: completes_all_def)
  then have recs_perm: "mset (corpus_records H cfg fs ?ts) = mset ?recs"
    unfolding corpus_records_def by (rule mset_concat_map_perm)
  note runs = disk_runs [OF delim ts_ok]
  from runs have "mset (concat ?runs) = image_mset record_line (mset (corpus_records H cfg fs ?ts))"
    by simp
  then have runs_m: "mset (concat ?runs) = mset (map record_line ?recs)"
    by (simp only: recs_perm mset_map)
  from runs have runs_s: "\<forall>run \<in> set ?runs. sorted (map line_key run)"
    by blast
  have recs_hex: "hex_digest_ok (fst r)" if "r \<in> set ?recs" for r
  proof -
    from that obtain i s where "i < length files" "s \<in> set (data_lines fs (files ! i))"
      and r: "r = (hash_line H cfg s, i, display_prefix cfg s)"
      unfolding corpus_records_set [OF ok] by blast
    then have "s \<in> corpus_lines fs files" by (simp only: file_lines)
    then show ?thesis by (simp add: r lossless)
  qed
  have "set (concat ?runs) = set (map record_line ?recs)"
    using runs_m by (rule mset_eq_setD)
  then have sub: "set (concat ?runs) \<subseteq> ?W"
    using recs_hex by auto
  have mono: "\<And>x y. x \<in> ?W \<Longrightarrow> y \<in> ?W \<Longrightarrow> x \<le> y \<Longrightarrow> line_key x \<le> line_key y"
    by (rule record_line_mono)
  from cascade_result [of ?W line_key "merge_batch_size cfg" ?runs, OF mono mbs sub runs_s]
  obtain merged where casc: "cascade (merge_batch_size cfg) ?runs = Some (Inr merged)"
    and short: "length merged \<le> 1"
    and merged_m: "mset (concat merged) = mset (concat ?runs)"
    and merged_s: "\<forall>run \<in> set merged. sorted (map line_key run)"
    by blast
  define L where "L = concat merged"
  define G where "G = groupby line_key L"
  have L_m: "mset L = mset (map record_line ?recs)"
    unfolding L_def using merged_m runs_m by simp
  then have L_set: "set L = record_line ` set ?recs"
    using mset_eq_setD [of L "map record_line ?recs"] by simp
  have L_s: "sorted (map line_key L)"
  proof (cases merged)
    case Nil
    then show ?thesis by (simp add: L_def)
  next
    case (Cons x rest)
    with short have "rest = []" by simp
    with Cons merged_s show ?thesis by (simp add: L_def)
  qed
  have out: "disk_output_data H as_completed fs files ?idm cfg
      = Some (Inr (foldl (disk_group ?idm) [] G))"
  proof (cases merged)
    case Nil
    then show ?thesis
      by (simp add: disk_output_data_def casc L_def G_def)
  next
    case (Cons x rest)
    with short have "rest = []" by simp
    with Cons show ?thesis
      by (simp add: disk_output_data_def casc L_def G_def)
  qed
  define grp where "grp h = (h, filter (\<lambda>y. line_key y = h) L)" for h
  define c where "c g \<longleftrightarrow> 1 < length (snd g) \<and> snd (foldl disk_item ([], []) (snd g)) \<noteq> []"
    for g :: "string \<times> string list"
  define k where "k g = snd (foldl disk_item ([], []) (snd g))" for g :: "string \<times> string list"
  define v where "v g = map (file_name_of ?idm) (sort (fst (foldl disk_item ([], []) (snd g))))"
    for g :: "string \<times> string list"
  have dg: "disk_group ?idm = (\<lambda>out g. if c g then AList.update (k g) (v g) out else out)"
    by (intro ext) (simp only: disk_group_cond c_def k_def v_def)
  have key_rec: "line_key (record_line r) = fst r" if "r \<in> set ?recs" for r
  proof -
    obtain h i p where r: "r = (h, i, p)" by (cases r)
    with recs_hex [OF that] have "hex_digest_ok h" by simp
    then have "tab \<notin> set h" by (rule hex_digest_ok_chars(3))
    then show ?thesis unfolding r by (simp add: line_key_record_line)
  qed
  have groups: "g \<in> set G \<longleftrightarrow> (\<exists>s \<in> corpus_lines fs files. g = grp (hash_line H cfg s))" for g
  proof -
    have "g \<in> set G \<longleftrightarrow> (\<exists>x \<in> set L. g = grp (line_key x))"
      unfolding G_def grp_def by (rule groupby_sorted [OF L_s])
    also have "\<dots> \<longleftrightarrow> (\<exists>r \<in> set ?recs. g = grp (fst r))"
      unfolding L_set using key_rec by auto
    also have "\<dots> \<longleftrightarrow> (\<exists>s \<in> corpus_lines fs files. g = grp (hash_line H cfg s))"
    proof
      assume "\<exists>r \<in> set ?recs. g = grp (fst r)"
      then obtain r where "r \<in> set ?recs" and g: "g = grp (fst r)" by blast
      then obtain i s where "i < length files" "s \<in> set (data_lines fs (files ! i))"
        and r: "r = (hash_line H cfg s, i, display_prefix cfg s)"
        unfolding corpus_records_set [OF ok] by blast
      then have "s \<in> corpus_lines fs files" by (simp only: file_lines)
      with g r show "\<exists>s \<in> corpus_lines fs files. g = grp (hash_line H cfg s)"
        by auto
    next
      assume "\<exists>s \<in> corpus_lines fs files. g = grp (hash_line H cfg s)"
      then obtain s where s: "s \<in> corpus_lines fs files" and g: "g = grp (hash_line H cfg s)"
        by blast
      from s obtain f where "f \<in> set files" and sf: "s \<in> set (data_lines fs f)"
        by (auto simp: corpus_lines_def)
      then obtain i where "i < length files" and "f = files ! i"
        by (auto simp: in_set_conv_nth)
      with sf have "(hash_line H cfg s, i, display_prefix cfg s) \<in> set ?recs"
        unfolding corpus_records_set [OF ok] by blast
      with g show "\<exists>r \<in> set ?recs. g = grp (fst r)"
        by force
    qed
    finally show ?thesis .
  qed
  have group: "length (snd (grp (hash_line H cfg s))) = total_occurrences H cfg fs files (hash_line H cfg s)
      \<and> snd (foldl disk_item ([], []) (snd (grp (hash_line H cfg s)))) = display_prefix cfg s
      \<and> sort (fst (foldl disk_item ([], []) (snd (grp (hash_line H cfg s)))))
          = files_with H cfg fs files (hash_line H cfg s)"
    if s: "s \<in> corpus_lines fs files" for s
  proof -
    define h where "h = hash_line H cfg s"
    define q where "q = display_prefix cfg s"
    define items where "items = filter (\<lambda>y. line_key y = h) L"
    have hx: "hex_digest_ok h" and q: "q \<noteq> []" "\<not> isspace (last q)"
      using lossless [OF s] by (simp_all add: h_def q_def)
    have rec_h: "r \<in> set ?recs \<and> fst r = h \<longleftrightarrow> (\<exists>i \<in> set (files_with H cfg fs files h). r = (h, i, q))"
      for r
    proof
      assume "r \<in> set ?recs \<and> fst r = h"
      then obtain i s' where i: "i < length files" and s': "s' \<in> set (data_lines fs (files ! i))"
        and r: "r = (hash_line H cfg s', i, display_prefix cfg s')" and hs: "hash_line H cfg s' = h"
        unfolding corpus_records_set [OF ok] by auto
      from i s' have "s' \<in> corpus_lines fs files" by (rule file_lines)
      with agree s hs have "display_prefix cfg s' = q"
        unfolding prefix_tells_hash_def h_def q_def by blast
      moreover from i s' hs have "i \<in> set (files_with H cfg fs files h)"
        unfolding in_files_with by blast
      ultimately show "\<exists>i \<in> set (files_with H cfg fs files h). r = (h, i, q)"
        using r hs by simp
    next
      assume "\<exists>i \<in> set (files_with H cfg fs files h). r = (h, i, q)"
      then obtain i where "i \<in> set (files_with H cfg fs files h)" and r: "r = (h, i, q)"
        by blast
      then obtain s' where i: "i < length files" and s': "s' \<in> set (data_lines fs (files ! i))"
        and hs: "hash_line H cfg s' = h"
        unfolding in_files_with by blast
      from i s' have "s' \<in> corpus_lines fs files" by (rule file_lines)
      with agree s hs have "display_prefix cfg s' = q"
        unfolding prefix_tells_hash_def h_def q_def by blast
      with i s' hs r have "r \<in> set ?recs"
        unfolding corpus_records_set [OF ok] by blast
      with r show "r \<in> set ?recs \<and> fst r = h" by simp
    qed
    have items_set: "x \<in> set items \<longleftrightarrow> (\<exists>i \<in> set (files_with H cfg fs files h). x = record_line (h, i, q))"
      for x
    proof -
      have "x \<in> set items \<longleftrightarrow> (\<exists>r \<in> set ?recs. x = record_line r \<and> fst r = h)"
        unfolding items_def using key_rec by (auto simp: L_set)
      also have "\<dots> \<longleftrightarrow> (\<exists>r. (r \<in> set ?recs \<and> fst r = h) \<and> x = record_line r)"
        by blast
      also have "\<dots> \<longleftrightarrow> (\<exists>i \<in> set (files_with H cfg fs files h). x = record_line (h, i, q))"
        unfolding rec_h by blast
      finally show ?thesis .
    qed
    have "length items = length (filter (\<lambda>y. line_key y = h) (map record_line ?recs))"
      unfolding items_def by (rule length_filter_perm [OF L_m])
    also have "\<dots> = length (filter (\<lambda>r. line_key (record_line r) = h) ?recs)"
      by (simp add: filter_map o_def)
    also have "filter (\<lambda>r. line_key (record_line r) = h) ?recs = filter (\<lambda>r. fst r = h) ?recs"
      by (rule filter_cong [OF refl]) (simp add: key_rec)
    finally have len: "length items = total_occurrences H cfg fs files h"
      by (simp only: corpus_records_total [OF ok])
    from s obtain f where "f \<in> set files" and sf: "s \<in> set (data_lines fs f)"
      by (auto simp: corpus_lines_def)
    then obtain i0 where "i0 < length files" and "f = files ! i0"
      by (auto simp: in_set_conv_nth)
    with sf have "i0 \<in> set (files_with H cfg fs files h)"
      unfolding in_files_with h_def by blast
    then have "record_line (h, i0, q) \<in> set items"
      unfolding items_set by blast
    then have ne: "items \<noteq> []" by auto
    have all: "\<forall>x \<in> set items. \<exists>i. x = record_line (h, i, q)"
      using items_set by blast
    from foldl_disk_item [OF hx q all, of "[]" "[]"] ne obtain ids
      where fold: "foldl disk_item ([], []) items = (ids, q)" and d: "distinct ids"
        and ids: "set ids = {i. record_line (h, i, q) \<in> set items}"
      by auto
    have "set ids = set (files_with H cfg fs files h)"
    proof (rule set_eqI)
      fix i
      have "i \<in> set ids \<longleftrightarrow> (\<exists>j \<in> set (files_with H cfg fs files h).
          record_line (h, i, q) = record_line (h, j, q))"
        unfolding ids items_set by simp
      also have "\<dots> \<longleftrightarrow> i \<in> set (files_with H cfg fs files h)"
        using record_line_inject [OF hx q hx q] by blast
      finally show "i \<in> set ids \<longleftrightarrow> i \<in> set (files_with H cfg fs files h)" .
    qed
    with d have "sort ids = files_with H cfg fs files h"
      using sorted_files_with [of H cfg fs files h]
      by (intro sorted_distinct_set_unique) simp_all
    with fold len show ?thesis
      unfolding grp_def h_def [symmetric] items_def [symmetric] q_def [symmetric] by simp
  qed
  have facts: "c (grp (hash_line H cfg s)) = (1 < total_occurrences H cfg fs files (hash_line H cfg s))
      \<and> k (grp (hash_line H cfg s)) = display_prefix cfg s
      \<and> v (grp (hash_line H cfg s))
          = map (\<lambda>i. name (files ! i)) (files_with H cfg fs files (hash_line H cfg s))"
    if s: "s \<in> corpus_lines fs files" for s
  proof -
    from group [OF s] have len: "length (snd (grp (hash_line H cfg s)))
          = total_occurrences H cfg fs files (hash_line H cfg s)"
      and pfx: "snd (foldl disk_item ([], []) (snd (grp (hash_line H cfg s)))) = display_prefix cfg s"
      and ids: "sort (fst (foldl disk_item ([], []) (snd (grp (hash_line H cfg s)))))
          = files_with H cfg fs files (hash_line H cfg s)"
      by simp_all
    from lossless [OF s] have "display_prefix cfg s \<noteq> []" by simp
    with len pfx ids show ?thesis
      unfolding c_def k_def v_def by (simp add: names_files_with)
  qed
  have fn: "v x = v y" if "x \<in> set G" "y \<in> set G" "c x" "c y" "k x = k y" for x y
  proof -
    from that(1) obtain s where s: "s \<in> corpus_lines fs files" and x: "x = grp (hash_line H cfg s)"
      unfolding groups by blast
    from that(2) obtain t where t: "t \<in> corpus_lines fs files" and y: "y = grp (hash_line H cfg t)"
      unfolding groups by blast
    from that(5) facts [OF s] facts [OF t] have "display_prefix cfg s = display_prefix cfg t"
      by (simp add: x y)
    with agree s t have "hash_line H cfg s = hash_line H cfg t"
      unfolding prefix_tells_hash_def by blast
    then show ?thesis by (simp add: x y)
  qed
  note fu = fold_updates_iff [of G c k v, OF fn]
  let ?out = "foldl (disk_group ?idm) [] G"
  have d_out: "distinct (map fst ?out)"
    unfolding dg using fu by blast
  have m_out: "map_of ?out q = Some w \<longleftrightarrow> reported H cfg fs files q w" for q w
  proof -
    have "map_of ?out q = Some w \<longleftrightarrow> (\<exists>x \<in> set G. c x \<and> k x = q \<and> w = v x)"
      unfolding dg using fu by blast
    also have "\<dots> \<longleftrightarrow> (\<exists>s \<in> corpus_lines fs files.
        c (grp (hash_line H cfg s)) \<and> k (grp (hash_line H cfg s)) = q \<and> w = v (grp (hash_line H cfg s)))"
    proof
      assume "\<exists>x \<in> set G. c x \<and> k x = q \<and> w = v x"
      then obtain x where x: "x \<in> set G" and cx: "c x \<and> k x = q \<and> w = v x" by blast
      from x obtain s where "s \<in> corpus_lines fs files" and "x = grp (hash_line H cfg s)"
        using groups [of x] by blast
      with cx show "\<exists>s \<in> corpus_lines fs files.
          c (grp (hash_line H cfg s)) \<and> k (grp (hash_line H cfg s)) = q \<and> w = v (grp (hash_line H cfg s))"
        by blast
    next
      assume "\<exists>s \<in> corpus_lines fs files.
          c (grp (hash_line H cfg s)) \<and> k (grp (hash_line H cfg s)) = q \<and> w = v (grp (hash_line H cfg s))"
      then obtain s where s: "s \<in> corpus_lines fs files"
        and cs: "c (grp (hash_line H cfg s)) \<and> k (grp (hash_line H cfg s)) = q \<and> w = v (grp (hash_line H cfg s))"
        by blast
      from s have "grp (hash_line H cfg s) \<in> set G"
        using groups [of "grp (hash_line H cfg s)"] by blast
      with cs show "\<exists>x \<in> set G. c x \<and> k x = q \<and> w = v x"
        by blast
    qed
    also have "\<dots> \<longleftrightarrow> reported H cfg fs files q w"
      unfolding reported_def
    proof (rule bex_cong [OF refl])
      fix s assume "s \<in> corpus_lines fs files"
      from facts [OF this]
      show "(c (grp (hash_line H cfg s)) \<and> k (grp (hash_line H cfg s)) = q \<and> w = v (grp (hash_line H cfg s)))
          = (display_prefix cfg s = q \<and> 1 < total_occurrences H cfg fs files (hash_line H cfg s)
             \<and> w = map (\<lambda>i. name (files ! i)) (files_with H cfg fs files (hash_line H cfg s)))"
        by (simp only:) blast
    qed
    finally show ?thesis .
  qed
  from out d_out m_out show ?thesis by blast
qed

section \<open>The report and the deletion do not depend on the order of the entries\<close>

lemma same_dict_set:
  assumes "distinct (map fst d)" and "distinct (map fst d')" and "map_of d = map_of d'"
  shows "set d = set d'"
  using assms by (simp add: map_of_inject_set)

lemma write_duplicates_cong:
  assumes d: "distinct (map fst d)" and d': "distinct (map fst d')" and m: "map_of d = map_of d'"
  shows "write_duplicates d open_ok = write_duplicates d' open_ok"
proof -
  have s: "set d = set d'"
    by (rule same_dict_set [OF assms])
  from d d' have "distinct d" and "distinct d'"
    by (simp_all add: distinct_map)
  with s have "mset d = mset d'"
    by (simp add: set_eq_iff_mset_eq_distinct)
  then have "image_mset fst (mset d') = image_mset fst (mset d)"
    by (simp only:)
  then have "mset (map fst d') = mset (map fst d)"
    by (simp only: mset_map)
  then have "sort (map fst d') = sort (map fst d)"
    by (intro properties_for_sort) simp_all
  then have srt: "sort (map fst d) = sort (map fst d')"
    by (rule sym)
  have g: "getitem d = getitem d'"
    by (intro ext) (simp add: getitem_def m)
  have re: "report_entries d = report_entries d'"
    unfolding report_entries_def keys_def by (simp only: g srt)
  from s have emp: "d = [] \<longleftrightarrow> d' = []"
    by (metis set_empty)
  show ?thesis
    unfolding write_duplicates_def by (simp only: re emp)
qed

lemma add_intra_entry_cong:
  assumes d: "distinct (map fst d)" and d': "distinct (map fst d')" and m: "map_of d = map_of d'"
  shows "distinct (map fst (add_intra_entry d e)) \<and> distinct (map fst (add_intra_entry d' e))
     \<and> map_of (add_intra_entry d e) = map_of (add_intra_entry d' e)"
proof -
  have "set d = set d'"
    by (rule same_dict_set [OF assms])
  then have "set (map snd d) = set (map snd d')"
    by simp
  then have "already_listed d f = already_listed d' f" for f
    unfolding already_listed_def list_ex_iff by (simp only:)
  with d d' m show ?thesis
    by (cases e) (simp add: add_intra_entry_def distinct_update update_conv')
qed

lemma foldl_add_intra_entry_cong:
  "distinct (map fst d) \<Longrightarrow> distinct (map fst d') \<Longrightarrow> map_of d = map_of d'
     \<Longrightarrow> distinct (map fst (foldl add_intra_entry d es))
       \<and> distinct (map fst (foldl add_intra_entry d' es))
       \<and> map_of (foldl add_intra_entry d es) = map_of (foldl add_intra_entry d' es)"
proof (induction es arbitrary: d d')
  case Nil
  then show ?case by simp
next
  case (Cons e es)
  from add_intra_entry_cong [OF Cons.prems, of e] Cons.IH [of "add_intra_entry d e" "add_intra_entry d' e"]
  show ?case by simp
qed

lemma delete_and_write_cong:
  assumes d: "distinct (map fst d)" and d': "distinct (map fst d')" and m: "map_of d = map_of d'"
  shows "delete_and_write H faults temp_path open_ok fs files cfg d
       = delete_and_write H faults temp_path open_ok fs files cfg d'"
proof (cases "deleteduplicates cfg")
  case False
  with write_duplicates_cong [OF assms] show ?thesis
    by (simp add: delete_and_write_def)
next
  case True
  have s: "set d = set d'"
    by (rule same_dict_set [OF assms])
  then have "inter_file_duplicate_prefixes d = inter_file_duplicate_prefixes d'"
    by (simp add: inter_file_duplicate_prefixes_def)
  then have c: "collect_duplicate_lines_for_deletion H fs files d cfg
      = collect_duplicate_lines_for_deletion H fs files d' cfg"
    by (simp add: collect_duplicate_lines_for_deletion_def)
  let ?ltd = "collect_duplicate_lines_for_deletion H fs files d' cfg"
  obtain fs1 inter where a: "foldl (delete_inter_file faults temp_path files) (fs, []) ?ltd = (fs1, inter)"
    by (cases "foldl (delete_inter_file faults temp_path files) (fs, []) ?ltd")
  obtain fs2 intra where b: "foldl (delete_intra_file H cfg) (fs1, []) files = (fs2, intra)"
    by (cases "foldl (delete_intra_file H cfg) (fs1, []) files")
  let ?g = "\<lambda>entry. (fst entry, projr (annotate_entry inter intra (snd entry)))"
  have fst_g: "map fst (map ?g x) = map fst x" for x :: "(string, string list) dict"
    by (induction x) auto
  have "map_of (map ?g x) = map_option (\<lambda>file_list. projr (annotate_entry inter intra file_list)) \<circ> map_of x"
    for x :: "(string, string list) dict"
    by (induction x) (auto simp: fun_eq_iff)
  with m have mg: "map_of (map ?g d) = map_of (map ?g d')"
    by simp
  from d d' have dg: "distinct (map fst (map ?g d))" "distinct (map fst (map ?g d'))"
    by (simp_all only: fst_g)
  note f = foldl_add_intra_entry_cong [OF dg mg, of intra]
  have w: "write_duplicates (foldl add_intra_entry (map ?g d) intra) open_ok
      = write_duplicates (foldl add_intra_entry (map ?g d') intra) open_ok"
    using f by (intro write_duplicates_cong) simp_all
  have e: "(\<exists>entry \<in> set d. snd entry = []) \<longleftrightarrow> (\<exists>entry \<in> set d'. snd entry = [])"
    by (simp only: s)
  show ?thesis
  proof (cases "\<exists>entry \<in> set d'. snd entry = []")
    case True
    with e True \<open>deleteduplicates cfg\<close> show ?thesis
      by (simp add: delete_and_write_def delete_duplicate_rows_def c a b annotate_entries_result)
  next
    case False
    with e w \<open>deleteduplicates cfg\<close> show ?thesis
      by (simp add: delete_and_write_def delete_duplicate_rows_def c a b annotate_entries_result)
  qed
qed

section \<open>A corpus without duplicates is left as it is\<close>

lemma intra_line_no_duplicates:
  assumes delim: "keys_computable cfg"
  shows "for_loop (intra_line H cfg) (seen, keep, n) ls = Inr (seen', keep', n')
     \<Longrightarrow> distinct (map (hash_line H cfg) (stripped_lines ls))
     \<Longrightarrow> seen \<inter> set (map (hash_line H cfg) (stripped_lines ls)) = {}
     \<Longrightarrow> n' = n"
proof (induction ls arbitrary: seen keep)
  case Nil
  then show ?case by simp
next
  case (Cons l ls)
  show ?case
  proof (cases "strip l = []")
    case True
    then have "intra_line H cfg (seen, keep, n) l = Inr (seen, keep @ [l], n)"
      by (simp add: intra_line_def)
    with Cons.prems(1) have "for_loop (intra_line H cfg) (seen, keep @ [l], n) ls = Inr (seen', keep', n')"
      by simp
    moreover from True Cons.prems have "distinct (map (hash_line H cfg) (stripped_lines ls))"
      "seen \<inter> set (map (hash_line H cfg) (stripped_lines ls)) = {}"
      by (simp_all add: stripped_lines_def)
    ultimately show ?thesis by (rule Cons.IH)
  next
    case False
    let ?h = "hash_line H cfg (strip l)"
    have sl: "stripped_lines (l # ls) = strip l # stripped_lines ls"
      using False by (simp add: stripped_lines_def)
    from Cons.prems(3) have new: "?h \<notin> seen"
      by (auto simp: sl)
    have "intra_line H cfg (seen, keep, n) l = Inr (insert ?h seen, keep @ [l], n)"
      using False new
      by (simp add: intra_line_def normalize_line_key_of [OF delim] hash_line_def Let_def)
    with Cons.prems have "for_loop (intra_line H cfg) (insert ?h seen, keep @ [l], n) ls
        = Inr (seen', keep', n')"
      by simp
    moreover from Cons.prems have "distinct (map (hash_line H cfg) (stripped_lines ls))"
      "insert ?h seen \<inter> set (map (hash_line H cfg) (stripped_lines ls)) = {}"
      by (auto simp: sl)
    ultimately show ?thesis by (rule Cons.IH)
  qed
qed

lemma distinct_map_count:
  "\<forall>x \<in> set xs. length (filter (\<lambda>y. g y = g x) xs) \<le> 1 \<Longrightarrow> distinct (map g xs)"
proof (induction xs)
  case Nil
  then show ?case by simp
next
  case (Cons x xs)
  have "g x \<notin> g ` set xs"
  proof
    assume "g x \<in> g ` set xs"
    then obtain y where "y \<in> set xs" and "g y = g x" by auto
    then have "filter (\<lambda>y. g y = g x) xs \<noteq> []"
      by (auto simp: filter_empty_conv)
    then have "0 < length (filter (\<lambda>y. g y = g x) xs)"
      by simp
    with Cons.prems show False by simp
  qed
  moreover have "\<forall>y \<in> set xs. length (filter (\<lambda>z. g z = g y) xs) \<le> 1"
  proof
    fix y assume "y \<in> set xs"
    with Cons.prems have "length (filter (\<lambda>z. g z = g y) (x # xs)) \<le> 1"
      by simp
    then show "length (filter (\<lambda>z. g z = g y) xs) \<le> 1"
      by (simp split: if_splits)
  qed
  ultimately show ?case
    using Cons.IH by simp
qed

lemma occurrences_le_total:
  assumes "f \<in> set files"
  shows "occurrences H cfg fs f h \<le> total_occurrences H cfg fs files h"
proof -
  from assms have "occurrences H cfg fs f h \<in> set (map (\<lambda>f. occurrences H cfg fs f h) files)"
    by simp
  then show ?thesis
    unfolding total_occurrences_def by (rule member_le_sum_list) simp
qed

lemma no_duplicates_distinct:
  assumes none: "\<forall>s \<in> corpus_lines fs files. \<not> 1 < total_occurrences H cfg fs files (hash_line H cfg s)"
    and f: "f \<in> set files"
  shows "distinct (map (hash_line H cfg) (data_lines fs f))"
proof (rule distinct_map_count, rule ballI)
  fix s assume s: "s \<in> set (data_lines fs f)"
  with f have "s \<in> corpus_lines fs files"
    by (auto simp: corpus_lines_def)
  with none have "total_occurrences H cfg fs files (hash_line H cfg s) \<le> 1"
    by (simp add: not_less)
  with occurrences_le_total [OF f, of H cfg fs "hash_line H cfg s"]
  show "length (filter (\<lambda>y. hash_line H cfg y = hash_line H cfg s) (data_lines fs f)) \<le> 1"
    by (simp add: occurrences_def)
qed

lemma find_and_delete_intrafile_no_duplicates:
  assumes delim: "keys_computable cfg"
    and d: "distinct (map (hash_line H cfg) (data_lines fs f))"
  shows "find_and_delete_intrafile_duplicates H fs f cfg = (fs, 0)"
proof (cases "fs (name f)")
  case None
  then show ?thesis by (simp add: find_and_delete_intrafile_duplicates_def)
next
  case (Some ls)
  show ?thesis
  proof (cases ls)
    case Nil
    with Some show ?thesis by (simp add: find_and_delete_intrafile_duplicates_def)
  next
    case (Cons header rest)
    let ?start = "({}, if header \<noteq> [] then [header] else [], 0 :: nat)"
    from d Some Cons have dr: "distinct (map (hash_line H cfg) (stripped_lines rest))"
      by (simp add: data_lines_def)
    show ?thesis
    proof (cases "for_loop (intra_line H cfg) ?start rest")
      case (Inl e)
      with Some Cons show ?thesis
        by (simp add: find_and_delete_intrafile_duplicates_def)
    next
      case (Inr st)
      obtain seen keep n where st: "st = (seen, keep, n)" by (cases st)
      from Inr st have "for_loop (intra_line H cfg) ({}, if header \<noteq> [] then [header] else [], 0) rest
          = Inr (seen, keep, n)"
        by simp
      then have "n = 0"
        by (rule intra_line_no_duplicates [OF delim _ dr]) simp
      with Some Cons Inr st show ?thesis
        by (simp add: find_and_delete_intrafile_duplicates_def)
    qed
  qed
qed

lemma delete_intra_no_duplicates:
  assumes delim: "keys_computable cfg"
  shows "\<forall>f \<in> set files. distinct (map (hash_line H cfg) (data_lines fs f))
     \<Longrightarrow> foldl (delete_intra_file H cfg) (fs, counts) files = (fs, counts)"
proof (induction files)
  case Nil
  then show ?case by simp
next
  case (Cons f files)
  then have "find_and_delete_intrafile_duplicates H fs f cfg = (fs, 0)"
    by (simp add: find_and_delete_intrafile_no_duplicates [OF delim])
  then have "delete_intra_file H cfg (fs, counts) f = (fs, counts)"
    by (simp add: delete_intra_file_def)
  with Cons show ?case by simp
qed

lemma delete_and_write_nothing:
  assumes delim: "keys_computable cfg"
    and d: "\<forall>f \<in> set files. distinct (map (hash_line H cfg) (data_lines fs f))"
  shows "delete_and_write H faults temp_path open_ok fs files cfg []
     = (fs, write_duplicates [] open_ok)"
proof -
  have "collect_duplicate_lines_for_deletion H fs files [] cfg = []"
    by (simp add: collect_duplicate_lines_for_deletion_def inter_file_duplicate_prefixes_def)
  then show ?thesis
    by (simp add: delete_and_write_def delete_duplicate_rows_def annotate_entries_def
        delete_intra_no_duplicates [OF delim d])
qed

lemma same_reported:
  assumes "\<And>q w. map_of d q = Some w \<longleftrightarrow> P q w" and "\<And>q w. map_of d' q = Some w \<longleftrightarrow> P q w"
  shows "map_of d = map_of d'"
proof
  fix q
  show "map_of d q = map_of d' q"
  proof (cases "map_of d q")
    case None
    show ?thesis
    proof (cases "map_of d' q")
      case (Some w)
      then have "map_of d q = Some w"
        using assms(1) [of q w] assms(2) [of q w] by simp
      with None show ?thesis by simp
    qed (simp add: None)
  next
    case (Some w)
    then show ?thesis
      using assms(1) [of q w, symmetric] assms(2) [of q w, symmetric] by simp
  qed
qed

lemma nothing_reported:
  assumes "\<And>q w. map_of d q = Some w \<longleftrightarrow> P q w" and "\<And>q w. \<not> P q w"
  shows "d = []"
proof (cases d)
  case Nil
  then show ?thesis .
next
  case (Cons x xs)
  then have "map_of d (fst x) = Some (snd x)" by simp
  then show ?thesis
    using assms(1) [of "fst x" "snd x", symmetric] assms(2) [of "fst x" "snd x"] by simp
qed

text \<open>
  The three engines agree on a corpus on which none of them loses anything: the delimiter
  is not empty, every file can be read, every worker completes, two lines have the same
  hash exactly when they have the same display prefix, the DISK records can be read back,
  and the batches of the merge hold at least two files.
\<close>

lemma engines_agree:
  assumes delim: "keys_computable cfg"
    and readable: "\<forall>f \<in> set files. fs (name f) \<noteq> None"
    and fast_pool: "completes_all fast_completed"
    and safe_pool1: "completes_all safe_completed1"
    and safe_pool2: "completes_all safe_completed2"
    and disk_pool: "completes_all disk_completed"
    and agree: "prefix_tells_hash H cfg fs files"
    and lossless: "disk_lossless H cfg fs files"
    and mbs: "2 \<le> merge_batch_size cfg"
  shows "run_strategy_safe H safe_completed1 safe_completed2 faults temp_path open_ok fs files
           (id_to_file_map files) cfg
         = run_strategy_fast H fast_completed faults temp_path open_ok fs files (id_to_file_map files) cfg"
    and "run_strategy_disk H disk_completed faults temp_path open_ok fs files (id_to_file_map files) cfg
         = Some (run_strategy_fast H fast_completed faults temp_path open_ok fs files
                   (id_to_file_map files) cfg)"
proof -
  let ?idm = "id_to_file_map files"
  let ?fast = "fast_output_data H fast_completed fs files ?idm cfg"
  let ?safe = "safe_output_data H safe_completed1 safe_completed2 fs files ?idm cfg"
  have fast_d: "distinct (map fst ?fast)"
    unfolding fast_output_data_def by (rule distinct_fast_prepare_output)
  have fast_m: "map_of ?fast q = Some w \<longleftrightarrow> reported H cfg fs files q w" for q w
    by (rule fast_output_reported [OF delim readable fast_pool agree])
  have safe_d: "distinct (map fst ?safe)"
    by (rule safe_output_reported(1) [OF delim readable safe_pool1 safe_pool2 agree])
  have safe_m: "map_of ?safe q = Some w \<longleftrightarrow> reported H cfg fs files q w" for q w
    by (rule safe_output_reported(2) [OF delim readable safe_pool1 safe_pool2 agree])
  from disk_output_reported [OF delim readable disk_pool agree lossless mbs]
  obtain disk where disk: "disk_output_data H disk_completed fs files ?idm cfg = Some (Inr disk)"
    and disk_d: "distinct (map fst disk)"
    and disk_m: "\<And>q w. map_of disk q = Some w \<longleftrightarrow> reported H cfg fs files q w"
    by blast
  have "map_of disk = map_of ?fast"
    by (rule same_reported [of disk "reported H cfg fs files", OF disk_m fast_m])
  then have "delete_and_write H faults temp_path open_ok fs files cfg disk
      = delete_and_write H faults temp_path open_ok fs files cfg ?fast"
    by (rule delete_and_write_cong [OF disk_d fast_d])
  then show "run_strategy_disk H disk_completed faults temp_path open_ok fs files ?idm cfg
         = Some (run_strategy_fast H fast_completed faults temp_path open_ok fs files ?idm cfg)"
    by (simp add: run_strategy_disk_def run_strategy_fast_def disk)
  let ?dups = "safe_duplicate_hashes (safe_hash_to_file_counts H safe_completed1 fs files cfg)"
  show "run_strategy_safe H safe_completed1 safe_completed2 faults temp_path open_ok fs files ?idm cfg
         = run_strategy_fast H fast_completed faults temp_path open_ok fs files ?idm cfg"
  proof (cases "?dups = []")
    case True
    have none: "\<forall>s \<in> corpus_lines fs files.
        \<not> 1 < total_occurrences H cfg fs files (hash_line H cfg s)"
    proof
      fix s assume s: "s \<in> corpus_lines fs files"
      have "hash_line H cfg s \<notin> set ?dups"
        by (simp only: True) simp
      with s show "\<not> 1 < total_occurrences H cfg fs files (hash_line H cfg s)"
        unfolding safe_duplicate_hashes_iff [OF delim readable safe_pool1] by blast
    qed
    then have "\<not> reported H cfg fs files q w" for q w
      unfolding reported_def by blast
    with fast_m have "?fast = []"
      by (rule nothing_reported [of ?fast "reported H cfg fs files"])
    moreover have "\<forall>f \<in> set files. distinct (map (hash_line H cfg) (data_lines fs f))"
      using no_duplicates_distinct [OF none] by blast
    ultimately have "delete_and_write H faults temp_path open_ok fs files cfg ?fast
        = (fs, write_duplicates [] open_ok)"
      by (simp only: delete_and_write_nothing [OF delim])
    with True show ?thesis
      by (simp add: run_strategy_safe_def run_strategy_fast_def)
  next
    case False
    have "map_of ?safe = map_of ?fast"
      by (rule same_reported [of ?safe "reported H cfg fs files", OF safe_m fast_m])
    then have "delete_and_write H faults temp_path open_ok fs files cfg ?safe
        = delete_and_write H faults temp_path open_ok fs files cfg ?fast"
      by (rule delete_and_write_cong [OF safe_d fast_d])
    with False show ?thesis
      by (simp add: run_strategy_safe_def run_strategy_fast_def)
  qed
qed

section \<open>The first stage of the deletion\<close>











section \<open>A field count that \<open>split\<close> does not take\<close>

lemma normalize_line_overflow:
  "\<not> (- PY_SSIZE_T_MAX - 1 \<le> k \<and> k \<le> PY_SSIZE_T_MAX)
     \<Longrightarrow> normalize_line s delimiter k = Inl OverflowError"
  by (auto simp: normalize_line_def)

lemma for_loop_all_raise:
  assumes "\<And>st l. strip l = [] \<Longrightarrow> body st l = Inr st"
    and "\<And>st l. strip l \<noteq> [] \<Longrightarrow> body st l = Inl e"
  shows "for_loop body st ls = Inr st \<or> for_loop body st ls = Inl e"
proof (induction ls)
  case Nil
  then show ?case by simp
next
  case (Cons l ls)
  then show ?case
    by (cases "strip l = []") (simp_all add: assms)
qed

lemma fast_global_hashes_overflow:
  assumes "\<not> (- PY_SSIZE_T_MAX - 1 \<le> hash_fields cfg \<and> hash_fields cfg \<le> PY_SSIZE_T_MAX)"
  shows "fast_global_hashes H as_completed fs files cfg = []"
proof -
  note n = normalize_line_overflow [OF assms]
  have "for_loop (fast_line H cfg) [] ls = Inr [] \<or> for_loop (fast_line H cfg) [] ls = Inl OverflowError"
    for ls
    by (rule for_loop_all_raise) (simp_all add: fast_line_def n)
  then have pf: "process_file_fast H fs f cfg = Inr [] \<or> (\<exists>e. process_file_fast H fs f cfg = Inl e)" for f
    by (auto simp: process_file_fast_def split: sum.splits)
  have step: "fast_merge_result H fs cfg gh task = gh" for gh task
    using pf [of "snd task"] by (auto simp: fast_merge_result_def)
  have "foldl (fast_merge_result H fs cfg) gh ts = gh" for gh ts
    by (induction ts) (simp_all add: step)
  then show ?thesis
    by (simp add: fast_global_hashes_def)
qed

lemma safe_hash_to_file_counts_overflow:
  assumes "\<not> (- PY_SSIZE_T_MAX - 1 \<le> hash_fields cfg \<and> hash_fields cfg \<le> PY_SSIZE_T_MAX)"
  shows "safe_hash_to_file_counts H as_completed fs files cfg = []"
proof -
  note n = normalize_line_overflow [OF assms]
  have "for_loop (safe_pass1_line H cfg) [] ls = Inr []
      \<or> for_loop (safe_pass1_line H cfg) [] ls = Inl OverflowError" for ls
    by (rule for_loop_all_raise) (simp_all add: safe_pass1_line_def n)
  then have pf: "process_file_safe_pass1 H fs f cfg = Inr []
      \<or> (\<exists>e. process_file_safe_pass1 H fs f cfg = Inl e)" for f
    by (auto simp: process_file_safe_pass1_def split: sum.splits)
  have step: "safe_merge_result H fs cfg tb task = tb" for tb task
    using pf [of "snd task"] by (auto simp: safe_merge_result_def)
  have "foldl (safe_merge_result H fs cfg) tb ts = tb" for tb ts
    by (induction ts) (simp_all add: step)
  then show ?thesis
    by (simp add: safe_hash_to_file_counts_def)
qed

lemma until_error_empty_runs:
  assumes "\<And>x. f x = Inr [] \<or> (\<exists>e. f x = Inl e)"
  shows "\<forall>run \<in> set (until_error f xs). run = []"
proof (induction xs)
  case Nil
  then show ?case by simp
next
  case (Cons x xs)
  with assms [of x] show ?case by auto
qed

lemma disk_output_data_overflow:
  assumes o: "\<not> (- PY_SSIZE_T_MAX - 1 \<le> hash_fields cfg \<and> hash_fields cfg \<le> PY_SSIZE_T_MAX)"
    and mbs: "2 \<le> merge_batch_size cfg"
  shows "disk_output_data H as_completed fs files id_map cfg = Some (Inr [])"
proof -
  note n = normalize_line_overflow [OF o]
  let ?runs = "concat (map (\<lambda>task. process_and_sort_chunk_disk H fs task cfg)
                 (as_completed (enumerate_files files)))"
  have fl: "for_loop (disk_line H cfg i) [] ls = Inr []
      \<or> for_loop (disk_line H cfg i) [] ls = Inl OverflowError" for i ls
    by (rule for_loop_all_raise) (simp_all add: disk_line_def n Let_def)
  have chunk: "disk_chunk H cfg i ls = Inr [] \<or> (\<exists>e. disk_chunk H cfg i ls = Inl e)" for i ls
    using fl [of i ls] by (auto simp: disk_chunk_def)
  have "\<forall>run \<in> set (process_and_sort_chunk_disk H fs task cfg). run = []" for task
    unfolding process_and_sort_chunk_disk_def
    by (cases "open_skip_header fs (snd task)") (simp_all add: until_error_empty_runs [OF chunk])
  then have empty: "\<forall>run \<in> set ?runs. run = []"
    by auto
  then have c: "concat ?runs = []"
    by simp
  have srt: "\<forall>run \<in> set ?runs. sorted (map (\<lambda>line. ()) run)"
  proof
    fix run assume "run \<in> set ?runs"
    with empty have "run = []" by blast
    then show "sorted (map (\<lambda>line. ()) run)" by simp
  qed
  have sub: "set (concat ?runs) \<subseteq> UNIV"
    by simp
  have mono: "\<And>x y :: string. x \<in> UNIV \<Longrightarrow> y \<in> UNIV \<Longrightarrow> x \<le> y \<Longrightarrow> () \<le> ()"
    by simp
  from cascade_result [of UNIV "\<lambda>line. ()" "merge_batch_size cfg" ?runs, OF mono mbs sub srt]
  obtain merged where casc: "cascade (merge_batch_size cfg) ?runs = Some (Inr merged)"
    and m: "mset (concat merged) = mset (concat ?runs)"
    by blast
  from m c have "concat merged = []"
    by simp
  then have "merged = [] \<or> (\<exists>rest. merged = [] # rest)"
    by (cases merged) auto
  then show ?thesis
    by (auto simp: disk_output_data_def casc)
qed

lemma intra_line_overflow:
  assumes "\<not> (- PY_SSIZE_T_MAX - 1 \<le> hash_fields cfg \<and> hash_fields cfg \<le> PY_SSIZE_T_MAX)"
  shows "for_loop (intra_line H cfg) (seen, keep, n) ls = Inr (seen', keep', n') \<Longrightarrow> n' = n"
proof (induction ls arbitrary: seen keep)
  case Nil
  then show ?case by simp
next
  case (Cons l ls)
  note nl = normalize_line_overflow [OF assms]
  show ?case
  proof (cases "strip l = []")
    case True
    then have "intra_line H cfg (seen, keep, n) l = Inr (seen, keep @ [l], n)"
      by (simp add: intra_line_def)
    with Cons.prems have "for_loop (intra_line H cfg) (seen, keep @ [l], n) ls = Inr (seen', keep', n')"
      by simp
    then show ?thesis by (rule Cons.IH)
  next
    case False
    then have "intra_line H cfg (seen, keep, n) l = Inl OverflowError"
      by (simp add: intra_line_def nl)
    with Cons.prems show ?thesis by simp
  qed
qed

lemma find_and_delete_intrafile_overflow:
  assumes o: "\<not> (- PY_SSIZE_T_MAX - 1 \<le> hash_fields cfg \<and> hash_fields cfg \<le> PY_SSIZE_T_MAX)"
  shows "find_and_delete_intrafile_duplicates H fs f cfg = (fs, 0)"
proof (cases "fs (name f)")
  case None
  then show ?thesis by (simp add: find_and_delete_intrafile_duplicates_def)
next
  case (Some ls)
  show ?thesis
  proof (cases ls)
    case Nil
    with Some show ?thesis by (simp add: find_and_delete_intrafile_duplicates_def)
  next
    case (Cons header rest)
    let ?start = "({}, if header \<noteq> [] then [header] else [], 0 :: nat)"
    show ?thesis
    proof (cases "for_loop (intra_line H cfg) ?start rest")
      case (Inl e)
      with Some Cons show ?thesis
        by (simp add: find_and_delete_intrafile_duplicates_def)
    next
      case (Inr st)
      obtain seen keep n where st: "st = (seen, keep, n)" by (cases st)
      from Inr st have "for_loop (intra_line H cfg) ({}, if header \<noteq> [] then [header] else [], 0) rest
          = Inr (seen, keep, n)"
        by simp
      then have "n = 0"
        by (rule intra_line_overflow [OF o])
      with Some Cons Inr st show ?thesis
        by (simp add: find_and_delete_intrafile_duplicates_def)
    qed
  qed
qed

lemma delete_and_write_nothing_overflow:
  assumes o: "\<not> (- PY_SSIZE_T_MAX - 1 \<le> hash_fields cfg \<and> hash_fields cfg \<le> PY_SSIZE_T_MAX)"
  shows "delete_and_write H faults temp_path open_ok fs files cfg []
     = (fs, write_duplicates [] open_ok)"
proof -
  have "collect_duplicate_lines_for_deletion H fs files [] cfg = []"
    by (simp add: collect_duplicate_lines_for_deletion_def inter_file_duplicate_prefixes_def)
  moreover have "delete_intra_file H cfg (fs, counts) f = (fs, counts)" for counts f
    by (simp add: delete_intra_file_def find_and_delete_intrafile_overflow [OF o])
  then have "foldl (delete_intra_file H cfg) (fs, counts) fl = (fs, counts)" for counts fl
    by (induction fl) simp_all
  ultimately show ?thesis
    by (simp add: delete_and_write_def delete_duplicate_rows_def annotate_entries_def)
qed

lemma engines_agree_overflow:
  assumes o: "\<not> (- PY_SSIZE_T_MAX - 1 \<le> hash_fields cfg \<and> hash_fields cfg \<le> PY_SSIZE_T_MAX)"
    and mbs: "2 \<le> merge_batch_size cfg"
  shows "run_strategy_fast H fast_completed faults temp_path open_ok fs files id_map cfg
         = (fs, write_duplicates [] open_ok)"
    and "run_strategy_safe H safe_completed1 safe_completed2 faults temp_path open_ok fs files id_map cfg
         = (fs, write_duplicates [] open_ok)"
    and "run_strategy_disk H disk_completed faults temp_path open_ok fs files id_map cfg
         = Some (fs, write_duplicates [] open_ok)"
proof -
  have "fast_output_data H fast_completed fs files id_map cfg = []"
    by (simp add: fast_output_data_def fast_global_hashes_overflow [OF o] fast_prepare_output_def
        dict_update_def)
  then show "run_strategy_fast H fast_completed faults temp_path open_ok fs files id_map cfg
         = (fs, write_duplicates [] open_ok)"
    by (simp add: run_strategy_fast_def delete_and_write_nothing_overflow [OF o])
  show "run_strategy_safe H safe_completed1 safe_completed2 faults temp_path open_ok fs files id_map cfg
         = (fs, write_duplicates [] open_ok)"
    by (simp add: run_strategy_safe_def safe_hash_to_file_counts_overflow [OF o]
        safe_duplicate_hashes_def)
  show "run_strategy_disk H disk_completed faults temp_path open_ok fs files id_map cfg
         = Some (fs, write_duplicates [] open_ok)"
    by (simp add: run_strategy_disk_def disk_output_data_overflow [OF o mbs]
        delete_and_write_nothing_overflow [OF o])
qed

section \<open>The file lists of the engines are not empty\<close>

lemma update_nonempty:
  "[] \<notin> snd ` set d \<Longrightarrow> v \<noteq> [] \<Longrightarrow> [] \<notin> snd ` set (AList.update k v d)"
  by (induction d) auto

lemma dict_update_nonempty:
  "[] \<notin> snd ` set d \<Longrightarrow> [] \<notin> snd ` set other \<Longrightarrow> [] \<notin> snd ` set (dict_update d other)"
  unfolding dict_update_def
proof (induction other arbitrary: d)
  case Nil
  then show ?case by simp
next
  case (Cons kv other)
  from Cons.prems have "[] \<notin> snd ` set (AList.update (fst kv) (snd kv) d)"
    by (intro update_nonempty) auto
  moreover from Cons.prems have "[] \<notin> snd ` set other"
    by auto
  ultimately show ?case
    using Cons.IH by simp
qed

lemma names_nonempty: "1 < length fc \<Longrightarrow> map f (sort (keys fc)) \<noteq> []"
proof
  assume "1 < length fc" and "map f (sort (keys fc)) = []"
  from this(2) have "length (map f (sort (keys fc))) = 0"
    by (simp only: list.size)
  with \<open>1 < length fc\<close> show False
    by (simp add: keys_def)
qed

lemma fast_prepare_output_nonempty:
  "[] \<notin> snd ` set (fast_prepare_output id_map gh)"
proof -
  have step: "[] \<notin> snd ` set (fst (fast_output_step id_map st entry))
      \<and> [] \<notin> snd ` set (snd (fast_output_step id_map st entry))"
    if st: "[] \<notin> snd ` set (fst st) \<and> [] \<notin> snd ` set (snd st)" for st entry
  proof -
    obtain h pfx fc where e: "entry = (h, pfx, fc)" by (cases entry)
    show ?thesis
    proof (cases "1 < length fc")
      case True
      from st have "[] \<notin> snd ` set (AList.update pfx (map (file_name_of id_map) (sort (keys fc))) (fst st))"
        by (intro update_nonempty names_nonempty True) simp
      with st True show ?thesis
        by (simp add: e fast_output_step_def)
    next
      case False
      have "[] \<notin> snd ` set (AList.update pfx [x] (snd st))" for x
        using st by (intro update_nonempty) simp_all
      with st False show ?thesis
        by (cases "keys fc") (simp_all add: e fast_output_step_def Let_def)
    qed
  qed
  have "[] \<notin> snd ` set (fst (foldl (fast_output_step id_map) st gh))
      \<and> [] \<notin> snd ` set (snd (foldl (fast_output_step id_map) st gh))"
    if "[] \<notin> snd ` set (fst st) \<and> [] \<notin> snd ` set (snd st)" for st
    using that
  proof (induction gh arbitrary: st)
    case Nil
    then show ?case by simp
  next
    case (Cons entry gh)
    from step [OF Cons.prems, of entry] show ?case
      by (simp add: Cons.IH)
  qed
  from this [of "([], [])"] show ?thesis
    unfolding fast_prepare_output_def
    by (cases "foldl (fast_output_step id_map) ([], []) gh") (simp add: dict_update_nonempty)
qed

lemma safe_output_data_nonempty:
  "[] \<notin> snd ` set (safe_output_data H as_completed1 as_completed2 fs files id_map cfg)"
proof -
  have step: "[] \<notin> snd ` set (safe_output_step id_map dups tb out entry)"
    if out: "[] \<notin> snd ` set out" for dups tb out entry
  proof -
    obtain h pfx where e: "entry = (h, pfx)" by (cases entry)
    let ?fc = "lookup_default [] tb h"
    show ?thesis
    proof (cases "1 < length ?fc")
      case True
      from out have "[] \<notin> snd ` set (AList.update pfx (map (file_name_of id_map) (sort (keys ?fc))) out)"
        by (intro update_nonempty names_nonempty True)
      with out True show ?thesis
        by (simp add: e safe_output_step_def Let_def)
    next
      case False
      have "[] \<notin> snd ` set (AList.update pfx [x] out)" for x
        using out by (intro update_nonempty) simp_all
      with out False show ?thesis
        by (cases "keys ?fc") (simp_all add: e safe_output_step_def Let_def)
    qed
  qed
  have "[] \<notin> snd ` set (foldl (safe_output_step id_map dups tb) out xs)"
    if "[] \<notin> snd ` set out" for dups tb out xs
    using that
  proof (induction xs arbitrary: out)
    case Nil
    then show ?case by simp
  next
    case (Cons x xs)
    from step [OF Cons.prems, of dups tb x] show ?case
      by (simp add: Cons.IH)
  qed
  from this [of "[]"] show ?thesis
    by (simp add: safe_output_data_def Let_def)
qed

lemma disk_item_ids:
  "(snd st \<noteq> [] \<longrightarrow> fst st \<noteq> []) \<Longrightarrow> snd (disk_item st item) \<noteq> [] \<longrightarrow> fst (disk_item st item) \<noteq> []"
  by (auto simp: disk_item_def List.insert_def split: list.splits option.splits)

lemma foldl_disk_item_ids:
  "(snd st \<noteq> [] \<longrightarrow> fst st \<noteq> [])
     \<Longrightarrow> snd (foldl disk_item st items) \<noteq> [] \<longrightarrow> fst (foldl disk_item st items) \<noteq> []"
proof (induction items arbitrary: st)
  case Nil
  then show ?case by simp
next
  case (Cons item items)
  from disk_item_ids [OF Cons.prems, of item] show ?case
    by (simp add: Cons.IH)
qed

lemma foldl_disk_group_nonempty:
  "[] \<notin> snd ` set out \<Longrightarrow> [] \<notin> snd ` set (foldl (disk_group id_map) out groups)"
proof (induction groups arbitrary: out)
  case Nil
  then show ?case by simp
next
  case (Cons g groups)
  have ids: "snd (foldl disk_item ([], []) (snd g)) \<noteq> [] \<longrightarrow> fst (foldl disk_item ([], []) (snd g)) \<noteq> []"
    by (rule foldl_disk_item_ids) simp
  have "map (file_name_of id_map) (sort (fst (foldl disk_item ([], []) (snd g)))) \<noteq> []"
    if "snd (foldl disk_item ([], []) (snd g)) \<noteq> []"
  proof
    assume "map (file_name_of id_map) (sort (fst (foldl disk_item ([], []) (snd g)))) = []"
    then have "length (map (file_name_of id_map) (sort (fst (foldl disk_item ([], []) (snd g))))) = 0"
      by (simp only: list.size)
    with ids that show False by simp
  qed
  then have "[] \<notin> snd ` set (AList.update k
      (map (file_name_of id_map) (sort (fst (foldl disk_item ([], []) (snd g))))) out)"
    if "snd (foldl disk_item ([], []) (snd g)) \<noteq> []" for k
    using that Cons.prems by (intro update_nonempty) simp_all
  with Cons.prems have "[] \<notin> snd ` set (disk_group id_map out g)"
    unfolding disk_group_cond by simp
  then show ?case
    by (simp add: Cons.IH)
qed

lemma disk_output_data_returns:
  assumes mbs: "2 \<le> merge_batch_size cfg"
  shows "\<exists>out. disk_output_data H as_completed fs files id_map cfg = Some (Inr out)
           \<and> [] \<notin> snd ` set out"
proof -
  let ?runs = "concat (map (\<lambda>task. process_and_sort_chunk_disk H fs task cfg)
                 (as_completed (enumerate_files files)))"
  have srt: "\<forall>run \<in> set ?runs. sorted (map (\<lambda>line. ()) run)"
  proof
    fix run
    have "sorted_wrt (\<lambda>x y. True) (map (\<lambda>line. ()) run)"
      by (induction run) simp_all
    then show "sorted (map (\<lambda>line. ()) run)"
      by (simp add: sorted_wrt_mono_rel [of _ "\<lambda>x y. True"])
  qed
  have sub: "set (concat ?runs) \<subseteq> UNIV"
    by simp
  have mono: "\<And>x y :: string. x \<in> UNIV \<Longrightarrow> y \<in> UNIV \<Longrightarrow> x \<le> y \<Longrightarrow> () \<le> ()"
    by simp
  from cascade_result [of UNIV "\<lambda>line. ()" "merge_batch_size cfg" ?runs, OF mono mbs sub srt]
  obtain merged where casc: "cascade (merge_batch_size cfg) ?runs = Some (Inr merged)"
    by blast
  show ?thesis
  proof (cases merged)
    case Nil
    with casc show ?thesis
      by (simp add: disk_output_data_def)
  next
    case (Cons final rest)
    with casc have "disk_output_data H as_completed fs files id_map cfg
        = Some (Inr (foldl (disk_group id_map) [] (groupby line_key final)))"
      by (simp add: disk_output_data_def)
    moreover have "[] \<notin> snd ` set (foldl (disk_group id_map) [] (groupby line_key final))"
      by (rule foldl_disk_group_nonempty) simp
    ultimately show ?thesis by blast
  qed
qed

section \<open>A writable report is written\<close>

lemma write_duplicates_writable: "\<exists>written. write_duplicates d True = Inr written"
  by (simp add: write_duplicates_def)

lemma delete_and_write_writable:
  assumes "[] \<notin> snd ` set output_data"
  shows "\<exists>fs' written. delete_and_write H faults temp_path True fs files cfg output_data = (fs', Inr written)"
proof (cases "deleteduplicates cfg")
  case True
  let ?ltd = "collect_duplicate_lines_for_deletion H fs files output_data cfg"
  obtain fs1 inter where a: "foldl (delete_inter_file faults temp_path files) (fs, []) ?ltd = (fs1, inter)"
    by (cases "foldl (delete_inter_file faults temp_path files) (fs, []) ?ltd")
  obtain fs2 intra where b: "foldl (delete_intra_file H cfg) (fs1, []) files = (fs2, intra)"
    by (cases "foldl (delete_intra_file H cfg) (fs1, []) files")
  from assms have "\<not> (\<exists>entry \<in> set output_data. snd entry = [])"
    by force
  with True a b write_duplicates_writable show ?thesis
    by (simp add: delete_and_write_def delete_duplicate_rows_def annotate_entries_result)
next
  case False
  with write_duplicates_writable [of output_data] show ?thesis
    by (auto simp: delete_and_write_def)
qed

section \<open>The three engines compared\<close>

text \<open>
  C1, as the code has it: the three engines end with the same file system and the same
  report when none of them loses anything on the corpus.  The delimiter is not empty and
  every input file can be read (a worker that raises is skipped, and the engines skip
  differently); every worker of every pool completes; two lines of the corpus have the
  same hash exactly when they have the same display prefix (the engines choose the prefix
  reported for a hash differently, and the report is keyed by the prefix); the hashes are
  hexadecimal digests, no line has an empty key, no display prefix is empty, holds a
  tabulator or ends in white space (the DISK engine writes its records as lines of text
  and reads them back); the merge takes at least two files at a time (with one file at a
  time the merge loop of the DISK engine does not end).  Then the SAFE run and the DISK
  run give what the FAST run gives, whatever the order in which the workers complete,
  with the deletion switched on or off.
\<close>

theorem engines_equivalent:
  assumes "hash_delimiter cfg \<noteq> []"
    and "\<forall>f \<in> set files. fs (name f) \<noteq> None"
    and "completes_all fast_completed"
    and "completes_all safe_completed1"
    and "completes_all safe_completed2"
    and "completes_all disk_completed"
    and "prefix_tells_hash H cfg fs files"
    and "disk_lossless H cfg fs files"
    and "2 \<le> merge_batch_size cfg"
  shows "run_strategy_safe H safe_completed1 safe_completed2 faults temp_path open_ok fs files
           (id_to_file_map files) cfg
         = run_strategy_fast H fast_completed faults temp_path open_ok fs files (id_to_file_map files) cfg
       \<and> run_strategy_disk H disk_completed faults temp_path open_ok fs files (id_to_file_map files) cfg
         = Some (run_strategy_fast H fast_completed faults temp_path open_ok fs files
                   (id_to_file_map files) cfg)"
proof (cases "- PY_SSIZE_T_MAX - 1 \<le> hash_fields cfg \<and> hash_fields cfg \<le> PY_SSIZE_T_MAX")
  case True
  with assms(1) have "keys_computable cfg"
    by (simp add: keys_computable_def)
  then show ?thesis
    by (intro conjI) (rule engines_agree [OF _ assms(2-9)], assumption)+
next
  case False
  note o = engines_agree_overflow [OF False assms(9)]
  show ?thesis
    by (simp only: o)
qed

theorem engines_equivalent_witness:
  "run_strategy_safe hex_digest (\<lambda>tasks. tasks) rev no_faults ''tmp0001.tmp'' True
       corpus_shared_line [csv ''b.csv'' 20, csv ''a.csv'' 40]
       (id_to_file_map [csv ''b.csv'' 20, csv ''a.csv'' 40]) (default_config True)
     = run_strategy_fast hex_digest rev no_faults ''tmp0001.tmp'' True
         corpus_shared_line [csv ''b.csv'' 20, csv ''a.csv'' 40]
         (id_to_file_map [csv ''b.csv'' 20, csv ''a.csv'' 40]) (default_config True)
   \<and> run_strategy_disk hex_digest (\<lambda>tasks. tasks) no_faults ''tmp0001.tmp'' True
       corpus_shared_line [csv ''b.csv'' 20, csv ''a.csv'' 40]
       (id_to_file_map [csv ''b.csv'' 20, csv ''a.csv'' 40]) (default_config True)
     = Some (run_strategy_fast hex_digest rev no_faults ''tmp0001.tmp'' True
         corpus_shared_line [csv ''b.csv'' 20, csv ''a.csv'' 40]
         (id_to_file_map [csv ''b.csv'' 20, csv ''a.csv'' 40]) (default_config True))"
proof -
  let ?files = "[csv ''b.csv'' 20, csv ''a.csv'' 40]"
  have delim: "hash_delimiter (default_config True) \<noteq> []"
    and mbs: "2 \<le> merge_batch_size (default_config True)"
    by (simp_all add: default_config_def)
  have readable: "\<forall>f \<in> set ?files. corpus_shared_line (name f) \<noteq> None"
    by (simp add: csv_def corpus_shared_line_def)
  have in_order: "completes_all (\<lambda>tasks. tasks)" for dummy :: "'a"
    by (simp add: completes_all_def)
  have reversed: "completes_all rev"
    by (simp add: completes_all_def)
  have agree: "prefix_tells_hash hex_digest (default_config True) corpus_shared_line ?files"
    by code_simp
  have lossless: "disk_lossless hex_digest (default_config True) corpus_shared_line ?files"
    by code_simp
  show ?thesis
    by (rule engines_equivalent [OF delim readable reversed in_order reversed in_order agree
          lossless mbs])
qed

text \<open>
  C1 as stated fails, with a hash that has no collisions: the two lines have the same six
  key fields and differ in the seventh, the workers complete in the order of submission,
  the deletion is off.  The FAST engine reports the hash with the display prefix of its
  line in \<open>a.csv\<close>, the SAFE engine with that of its line in \<open>b.csv\<close>.
\<close>

theorem engines_report_different_prefixes:
  "snd (run_strategy_fast hex_digest (\<lambda>tasks. tasks) no_faults ''tmp0001.tmp'' True
        corpus_same_key [csv ''a.csv'' 30, csv ''b.csv'' 30]
        (id_to_file_map [csv ''a.csv'' 30, csv ''b.csv'' 30]) (default_config False))
     = Inr [''1;2;3;4;5;6;x'' @ [nl], bullet @ ''a.csv'' @ [nl], bullet @ ''b.csv'' @ [nl]]
   \<and> snd (run_strategy_safe hex_digest (\<lambda>tasks. tasks) (\<lambda>tasks. tasks) no_faults ''tmp0001.tmp'' True
        corpus_same_key [csv ''a.csv'' 30, csv ''b.csv'' 30]
        (id_to_file_map [csv ''a.csv'' 30, csv ''b.csv'' 30]) (default_config False))
     = Inr [''1;2;3;4;5;6;y'' @ [nl], bullet @ ''a.csv'' @ [nl], bullet @ ''b.csv'' @ [nl]]"
  by code_simp

section \<open>Which file keeps a duplicated line\<close>



section \<open>Properties of the driver\<close>

text \<open>
  C6, as the code has it: the exit status is 0 whenever \<open>main\<close> returns, and the script
  never calls \<open>sys.exit\<close>.  A missing input directory is logged by \<open>get_input_files\<close>,
  which returns no files, upon which \<open>main\<close> returns: the process exits with 0, the file
  system untouched and no report written.  The same holds for a directory in which the
  pattern matches no regular file.  With input files and a writable report, the run of
  the strategy, given on the command line or selected by \<open>auto\<close>, returns and the
  process exits with 0, duplicates or not, the report written; for the DISK strategy the
  merge takes at least two files at a time (otherwise its loop may not end, or raise).
\<close>

theorem main_exit_status:
  "(\<not> input_is_dir env \<longrightarrow> main env strategy_arg cfg fs = Some (0, fs, None))
   \<and> (input_is_dir env \<and> filter is_file (glob_result env) = []
        \<longrightarrow> main env strategy_arg cfg fs = Some (0, fs, None))
   \<and> (\<forall>files. get_input_files (input_is_dir env) (glob_result env) = Inr files \<and> files \<noteq> []
          \<and> output_writable env
          \<and> ((case strategy_arg of
                  Auto \<Rightarrow> auto_select_strategy (arith env) (psutil_available env)
                            (virtual_memory_available env) fs files (write_length cfg)
                | Chosen s \<Rightarrow> s) = Disk \<longrightarrow> 2 \<le> merge_batch_size cfg)
        \<longrightarrow> (\<exists>fs' written. main env strategy_arg cfg fs = Some (0, fs', Some written)))"
proof (intro conjI allI impI)
  assume "\<not> input_is_dir env"
  then show "main env strategy_arg cfg fs = Some (0, fs, None)"
    by (simp add: main_def get_input_files_def)
next
  assume "input_is_dir env \<and> filter is_file (glob_result env) = []"
  then show "main env strategy_arg cfg fs = Some (0, fs, None)"
    by (simp add: main_def get_input_files_def)
next
  fix files
  let ?strategy = "case strategy_arg of
                  Auto \<Rightarrow> auto_select_strategy (arith env) (psutil_available env)
                            (virtual_memory_available env) fs files (write_length cfg)
                | Chosen s \<Rightarrow> s"
  let ?idm = "id_to_file_map files"
  assume a: "get_input_files (input_is_dir env) (glob_result env) = Inr files \<and> files \<noteq> []
          \<and> output_writable env \<and> (?strategy = Disk \<longrightarrow> 2 \<le> merge_batch_size cfg)"
  then have files: "get_input_files (input_is_dir env) (glob_result env) = Inr files"
    and ne: "files \<noteq> []" and w: "output_writable env"
    and mbs: "?strategy = Disk \<Longrightarrow> 2 \<le> merge_batch_size cfg"
    by simp_all
  show "\<exists>fs' written. main env strategy_arg cfg fs = Some (0, fs', Some written)"
  proof (cases ?strategy)
    case Fast
    obtain fs' written where "run_strategy_fast (hash_of env) (completion1 env)
        (rewrite_faults env) (temp_name env) True fs files ?idm cfg = (fs', Inr written)"
      unfolding run_strategy_fast_def fast_output_data_def
      using delete_and_write_writable [OF fast_prepare_output_nonempty] by blast
    with files ne w Fast show ?thesis
      by (simp add: main_def exit_status_def)
  next
    case Safe
    have "\<exists>fs' written. run_strategy_safe (hash_of env) (completion1 env) (completion2 env)
        (rewrite_faults env) (temp_name env) True fs files ?idm cfg = (fs', Inr written)"
    proof (cases "safe_duplicate_hashes (safe_hash_to_file_counts (hash_of env) (completion1 env)
        fs files cfg) = []")
      case True
      with write_duplicates_writable [of "[]"] show ?thesis
        by (simp add: run_strategy_safe_def)
    next
      case False
      with delete_and_write_writable [OF safe_output_data_nonempty] show ?thesis
        by (simp add: run_strategy_safe_def)
    qed
    then obtain fs' written where "run_strategy_safe (hash_of env) (completion1 env) (completion2 env)
        (rewrite_faults env) (temp_name env) True fs files ?idm cfg = (fs', Inr written)"
      by blast
    with files ne w Safe show ?thesis
      by (simp add: main_def exit_status_def)
  next
    case Disk
    from disk_output_data_returns [OF mbs [OF Disk]]
    obtain out where out: "disk_output_data (hash_of env) (completion1 env) fs files ?idm cfg
        = Some (Inr out)" and o: "[] \<notin> snd ` set out"
      by blast
    from delete_and_write_writable [OF o]
    obtain fs' written where "delete_and_write (hash_of env) (rewrite_faults env) (temp_name env)
        True fs files cfg out = (fs', Inr written)"
      by blast
    with out have "run_strategy_disk (hash_of env) (completion1 env)
        (rewrite_faults env) (temp_name env) True fs files ?idm cfg = Some (fs', Inr written)"
      by (simp add: run_strategy_disk_def)
    with files ne w Disk show ?thesis
      by (simp add: main_def exit_status_def)
  qed
qed

theorem main_exit_status_witness:
  "main (plain_environment False []) Auto (default_config False) corpus_same_key
     = Some (0, corpus_same_key, None)
   \<and> main (plain_environment True [\<lparr>name = ''sub'', is_file = False, st_size = Some 0\<rparr>]) Auto
       (default_config False) corpus_same_key
     = Some (0, corpus_same_key, None)
   \<and> (\<exists>fs' written. main (plain_environment True [csv ''a.csv'' 21, csv ''b.csv'' 21])
         Auto (default_config False) corpus_same_key = Some (0, fs', Some written))"
proof -
  let ?missing = "plain_environment False []"
  let ?empty = "plain_environment True [\<lparr>name = ''sub'', is_file = False, st_size = Some 0\<rparr>]"
  let ?two = "plain_environment True [csv ''a.csv'' 21, csv ''b.csv'' 21]"
  have m: "\<not> input_is_dir ?missing"
    by (simp add: plain_environment_def)
  have e: "input_is_dir ?empty \<and> filter is_file (glob_result ?empty) = []"
    by (simp add: plain_environment_def)
  have f: "get_input_files (input_is_dir ?two) (glob_result ?two) = Inr [csv ''a.csv'' 21, csv ''b.csv'' 21]
      \<and> [csv ''a.csv'' 21, csv ''b.csv'' 21] \<noteq> [] \<and> output_writable ?two
      \<and> ((case Auto of
              Auto \<Rightarrow> auto_select_strategy (arith ?two) (psutil_available ?two)
                        (virtual_memory_available ?two) corpus_same_key
                        [csv ''a.csv'' 21, csv ''b.csv'' 21] (write_length (default_config False))
            | Chosen s \<Rightarrow> s) = Disk \<longrightarrow> 2 \<le> merge_batch_size (default_config False))"
    by (simp add: plain_environment_def get_input_files_def csv_def default_config_def)
  from main_exit_status [of ?missing Auto "default_config False" corpus_same_key] m
  have "main ?missing Auto (default_config False) corpus_same_key = Some (0, corpus_same_key, None)"
    by blast
  moreover from main_exit_status [of ?empty Auto "default_config False" corpus_same_key] e
  have "main ?empty Auto (default_config False) corpus_same_key = Some (0, corpus_same_key, None)"
    by blast
  moreover from main_exit_status [of ?two Auto "default_config False" corpus_same_key] f
  have "\<exists>fs' written. main ?two Auto (default_config False) corpus_same_key
      = Some (0, fs', Some written)"
    by blast
  ultimately show ?thesis by simp
qed

text \<open>
  C6 as stated fails: with a missing input directory the process exits with status 0.
\<close>

theorem main_missing_directory_exits_zero:
  "main (plain_environment False []) Auto (default_config False) corpus_same_key
     = Some (0, corpus_same_key, None)"
  by (simp add: main_def get_input_files_def plain_environment_def)

end
